theory Spec2Isabelle
  imports Complex_Main
begin

section \<open>Monte Carlo tree search: the TreeNode engine and the MCTSAgent driver\<close>

text \<open>
  A shallow embedding of \<^verbatim>\<open>ggpa/mcts_bot.py\<close>. TreeNode objects live in an explicit
  store, since \<^verbatim>\<open>backpropagate\<close> climbs the \<^verbatim>\<open>parent\<close> references while
  \<^verbatim>\<open>select\<close> and \<^verbatim>\<open>expand\<close> mutate the \<^verbatim>\<open>children\<close> lists of the same objects.
\<close>

subsection \<open>Python floats\<close>

text \<open>
  A float is a finite binary number, one of the two infinities, or NaN. Comparison is
  exact: \<open>py_gt\<close> is Python's \<^verbatim>\<open>>\<close> and \<open>py_ge\<close> is \<^verbatim>\<open>>=\<close>, both false as soon as
  one side is NaN. Positive and negative zero compare equal and are one value here.
\<close>

datatype pyfloat = NegInf | Fin real | PosInf | NaN

fun py_gt :: "pyfloat \<Rightarrow> pyfloat \<Rightarrow> bool" where
  "py_gt NaN y = False"
| "py_gt x NaN = False"
| "py_gt NegInf y = False"
| "py_gt (Fin x) NegInf = True"
| "py_gt (Fin x) (Fin y) = (x > y)"
| "py_gt (Fin x) PosInf = False"
| "py_gt PosInf PosInf = False"
| "py_gt PosInf y = True"

fun py_ge :: "pyfloat \<Rightarrow> pyfloat \<Rightarrow> bool" where
  "py_ge NaN y = False"
| "py_ge x NaN = False"
| "py_ge x NegInf = True"
| "py_ge NegInf y = False"
| "py_ge (Fin x) (Fin y) = (x \<ge> y)"
| "py_ge (Fin x) PosInf = False"
| "py_ge PosInf y = True"

fun finite_float :: "pyfloat \<Rightarrow> bool" where
  "finite_float (Fin x) = True"
| "finite_float x = False"

text \<open>
  Arithmetic is not exact, and how it rounds is the interpreter's and the platform's
  business (the built-in \<^verbatim>\<open>sum\<close>, for one, has changed its summation method between
  Python versions). So the arithmetic that the source uses is a parameter of the model:
  \<open>py_sum\<close> is \<^verbatim>\<open>sum(node.results)\<close>, \<open>py_div_nat\<close> the division of a float by the
  integer \<^verbatim>\<open>node.visits\<close>, \<open>py_log\<close> is \<^verbatim>\<open>math.log\<close> on a positive integer, \<open>py_sqrt\<close>
  is \<^verbatim>\<open>math.sqrt\<close>, \<open>py_mul\<close> and \<open>py_add\<close> are \<^verbatim>\<open>*\<close> and \<^verbatim>\<open>+\<close> on floats. Every
  theorem below holds for every choice of these operations, binary64 among them.
  \<^verbatim>\<open>math.sqrt\<close> raises only on a negative argument; the source calls it on the quotient
  of \<^verbatim>\<open>log_total\<close> (0.0 or the logarithm of a positive integer) by a positive count.
\<close>

record arith =
  py_sum :: "pyfloat list \<Rightarrow> pyfloat"
  py_div_nat :: "pyfloat \<Rightarrow> nat \<Rightarrow> pyfloat"
  py_log :: "nat \<Rightarrow> pyfloat"
  py_sqrt :: "pyfloat \<Rightarrow> pyfloat"
  py_mul :: "pyfloat \<Rightarrow> pyfloat \<Rightarrow> pyfloat"
  py_add :: "pyfloat \<Rightarrow> pyfloat \<Rightarrow> pyfloat"

subsection \<open>The random module\<close>

text \<open>
  The generator is an infinite sequence of raw draws. \<^verbatim>\<open>random.choice(seq)\<close> raises
  IndexError on an empty sequence and otherwise consumes one draw and returns the element
  at that draw reduced modulo the length.
\<close>

datatype error = IndexError

type_synonym rng = "nat \<Rightarrow> nat"

definition choice :: "rng \<Rightarrow> 'x list \<Rightarrow> error + ('x \<times> rng)" where
  "choice g xs =
     (if xs = [] then Inl IndexError
      else Inr (xs ! (g 0 mod length xs), (\<lambda>i. g (Suc i))))"

subsection \<open>The environment interface\<close>

text \<open>
  BattleState is an external collaborator; the engine uses only the five methods below.
  \<^verbatim>\<open>step\<close> and \<^verbatim>\<open>copy_undeterministic\<close> may resolve hidden information at random, so
  they take and return the generator. \<open>to_action\<close> is the conversion of a chosen action
  into the format the game executes.
\<close>

record ('s, 'a, 'x) env =
  state_ended :: "'s \<Rightarrow> bool"
  state_get_actions :: "'s \<Rightarrow> 'a list"
  state_step :: "'s \<Rightarrow> 'a \<Rightarrow> rng \<Rightarrow> 's \<times> rng"
  state_score :: "'s \<Rightarrow> pyfloat"
  copy_undeterministic :: "'s \<Rightarrow> rng \<Rightarrow> 's \<times> rng"
  to_action :: "'a \<Rightarrow> 's \<Rightarrow> 'x"

subsection \<open>TreeNode objects and the store\<close>

text \<open>
  \<open>visits\<close> starts at 0 and is only ever incremented, so it is a natural number.
  A reference to a TreeNode is an address; \<open>fresh\<close> is the next unused address, and
  constructing a TreeNode stores the new object there.
\<close>

type_synonym addr = nat

record 'a TreeNode =
  children :: "('a \<times> addr) list"
  parent :: "addr option"
  results :: "pyfloat list"
  visits :: nat
  param :: pyfloat

record 'a heap =
  nodes :: "addr \<Rightarrow> 'a TreeNode"
  fresh :: addr

definition TreeNode_init :: "pyfloat \<Rightarrow> addr option \<Rightarrow> 'a TreeNode" where
  "TreeNode_init p par =
     \<lparr>children = [], parent = par, results = [], visits = 0, param = p\<rparr>"

definition heap_empty :: "'a heap" where
  "heap_empty = \<lparr>nodes = (\<lambda>_. TreeNode_init (Fin 0) None), fresh = 0\<rparr>"

definition new_TreeNode :: "'a heap \<Rightarrow> pyfloat \<Rightarrow> addr option \<Rightarrow> addr \<times> 'a heap" where
  "new_TreeNode h p par =
     (fresh h, h\<lparr>nodes := (nodes h)(fresh h := TreeNode_init p par), fresh := Suc (fresh h)\<rparr>)"

definition append_child :: "'a heap \<Rightarrow> addr \<Rightarrow> 'a \<Rightarrow> addr \<Rightarrow> 'a heap" where
  "append_child h n a c =
     h\<lparr>nodes := (nodes h)(n := (nodes h n)\<lparr>children := children (nodes h n) @ [(a, c)]\<rparr>)\<rparr>"

subsection \<open>backpropagate\<close>

definition record_result :: "pyfloat \<Rightarrow> 'a TreeNode \<Rightarrow> 'a TreeNode" where
  "record_result r nd = nd\<lparr>results := results nd @ [r], visits := visits nd + 1\<rparr>"

partial_function (option) backpropagate :: "'a heap \<Rightarrow> addr \<Rightarrow> pyfloat \<Rightarrow> 'a heap option" where
  "backpropagate h n r =
     (let h1 = h\<lparr>nodes := (nodes h)(n := record_result r (nodes h n))\<rparr>
      in case parent (nodes h1 n) of
           None \<Rightarrow> Some h1
         | Some p \<Rightarrow> backpropagate h1 p r)"

subsection \<open>score and rollout\<close>

definition score :: "('s, 'a, 'x) env \<Rightarrow> 's \<Rightarrow> pyfloat" where
  "score E st = state_score E st"

partial_function (option) rollout ::
  "('s, 'a, 'x) env \<Rightarrow> 's \<Rightarrow> rng \<Rightarrow> (error + (pyfloat \<times> 's \<times> rng)) option" where
  "rollout E st g =
     (if state_ended E st then Some (Inr (score E st, st, g))
      else case choice g (state_get_actions E st) of
             Inl e \<Rightarrow> Some (Inl e)
           | Inr (action, g1) \<Rightarrow>
               (case state_step E st action g1 of (st1, g2) \<Rightarrow> rollout E st1 g2))"

subsection \<open>expand\<close>

definition unexplored :: "'a heap \<Rightarrow> addr \<Rightarrow> 'a list \<Rightarrow> 'a list" where
  "unexplored h n available =
     (let tried = map fst (children (nodes h n))
      in filter (\<lambda>a. a \<notin> set tried) available)"

definition expand ::
  "('s, 'a, 'x) env \<Rightarrow> 'a heap \<Rightarrow> addr \<Rightarrow> 's \<Rightarrow> 'a list \<Rightarrow> rng
     \<Rightarrow> (error + ('a heap \<times> addr \<times> 's \<times> rng)) option" where
  "expand E h n st available g =
     (case choice g (unexplored h n available) of
        Inl e \<Rightarrow> Some (Inl e)
      | Inr (action, g1) \<Rightarrow>
          (case new_TreeNode h (param (nodes h n)) (Some n) of (child, h1) \<Rightarrow>
             let h2 = append_child h1 n action child in
             case state_step E st action g1 of (st1, g2) \<Rightarrow>
               (case rollout E st1 g2 of
                  None \<Rightarrow> None
                | Some (Inl e) \<Rightarrow> Some (Inl e)
                | Some (Inr (reward, st2, g3)) \<Rightarrow>
                    (case backpropagate h2 child reward of
                       None \<Rightarrow> None
                     | Some h3 \<Rightarrow> Some (Inr (h3, child, st2, g3))))))"

subsection \<open>select\<close>

definition total_visits :: "'a heap \<Rightarrow> addr \<Rightarrow> nat" where
  "total_visits h n = sum_list (map (\<lambda>(_, node). visits (nodes h node)) (children (nodes h n)))"

definition log_total :: "arith \<Rightarrow> nat \<Rightarrow> pyfloat" where
  "log_total F tv = (if tv > 0 then py_log F tv else Fin 0)"

definition ucb_score :: "arith \<Rightarrow> pyfloat \<Rightarrow> pyfloat \<Rightarrow> 'a TreeNode \<Rightarrow> pyfloat" where
  "ucb_score F c lt node =
     (if visits node = 0 then PosInf
      else let avg_reward = py_div_nat F (py_sum F (results node)) (visits node);
               exploit = avg_reward;
               explore = py_mul F c (py_sqrt F (py_div_nat F lt (visits node)))
           in py_add F exploit explore)"

text \<open>
  The for loop of \<^verbatim>\<open>select\<close>: the accumulator is \<^verbatim>\<open>best_score\<close> together with the
  pair \<^verbatim>\<open>(best_action, best_node)\<close>, which the source always assigns together.
\<close>

fun ucb_loop ::
  "arith \<Rightarrow> 'a heap \<Rightarrow> pyfloat \<Rightarrow> pyfloat \<Rightarrow> 'a list \<Rightarrow> ('a \<times> addr) list
     \<Rightarrow> pyfloat \<times> ('a \<times> addr) option \<Rightarrow> pyfloat \<times> ('a \<times> addr) option" where
  "ucb_loop F h c lt actions [] best = best"
| "ucb_loop F h c lt actions ((action, node) # rest) (best_score, best) =
     (if action \<notin> set actions then ucb_loop F h c lt actions rest (best_score, best)
      else let sc = ucb_score F c lt (nodes h node)
           in if py_gt sc best_score
              then ucb_loop F h c lt actions rest (sc, Some (action, node))
              else ucb_loop F h c lt actions rest (best_score, best))"

definition ucb_pick :: "arith \<Rightarrow> 'a heap \<Rightarrow> addr \<Rightarrow> 'a list \<Rightarrow> ('a \<times> addr) option" where
  "ucb_pick F h n actions =
     snd (ucb_loop F h (param (nodes h n)) (log_total F (total_visits h n)) actions
            (children (nodes h n)) (NegInf, None))"

partial_function (option) select ::
  "arith \<Rightarrow> ('s, 'a, 'x) env \<Rightarrow> 'a heap \<Rightarrow> addr \<Rightarrow> 's \<Rightarrow> rng
     \<Rightarrow> (error + ('a heap \<times> addr \<times> 's \<times> rng)) option" where
  "select F E h n st g =
     (if state_ended E st then
        (case backpropagate h n (score E st) of
           None \<Rightarrow> None
         | Some h1 \<Rightarrow> Some (Inr (h1, n, st, g)))
      else
        let actions = state_get_actions E st in
        if length (children (nodes h n)) < length actions then expand E h n st actions g
        else
          (case ucb_pick F h n actions of
             Some (best_action, best_node) \<Rightarrow>
               (case state_step E st best_action g of (st1, g1) \<Rightarrow>
                  select F E h best_node st1 g1)
           | None \<Rightarrow>
               (case choice g actions of
                  Inl e \<Rightarrow> Some (Inl e)
                | Inr (best_action, g1) \<Rightarrow>
                    (case find (\<lambda>(a, _). a = best_action) (children (nodes h n)) of
                       Some (_, best_node) \<Rightarrow>
                         (case state_step E st best_action g1 of (st1, g2) \<Rightarrow>
                            select F E h best_node st1 g2)
                     | None \<Rightarrow>
                         (case new_TreeNode h (param (nodes h n)) (Some n) of (best_node, h1) \<Rightarrow>
                            (case state_step E st best_action g1 of (st1, g2) \<Rightarrow>
                               select F E (append_child h1 n best_action best_node) best_node st1 g2))))))"

definition step ::
  "arith \<Rightarrow> ('s, 'a, 'x) env \<Rightarrow> 'a heap \<Rightarrow> addr \<Rightarrow> 's \<Rightarrow> rng \<Rightarrow> (error + ('a heap \<times> 's \<times> rng)) option" where
  "step F E h n st g =
     (case select F E h n st g of
        None \<Rightarrow> None
      | Some (Inl e) \<Rightarrow> Some (Inl e)
      | Some (Inr (h1, _, st1, g1)) \<Rightarrow> Some (Inr (h1, st1, g1)))"

subsection \<open>get_best\<close>

text \<open>
  Python's \<^verbatim>\<open>max(iterable, key=...)\<close> keeps the first item and replaces it only by an
  item whose key is strictly greater.
\<close>

fun py_max_loop :: "('b \<Rightarrow> pyfloat) \<Rightarrow> 'b \<Rightarrow> 'b list \<Rightarrow> 'b" where
  "py_max_loop key best [] = best"
| "py_max_loop key best (x # xs) =
     (if py_gt (key x) (key best) then py_max_loop key x xs else py_max_loop key best xs)"

definition avg_key :: "arith \<Rightarrow> 'a heap \<Rightarrow> 'a \<times> addr \<Rightarrow> pyfloat" where
  "avg_key F h ac =
     (if visits (nodes h (snd ac)) > 0
      then py_div_nat F (py_sum F (results (nodes h (snd ac)))) (visits (nodes h (snd ac)))
      else NegInf)"

definition get_best ::
  "arith \<Rightarrow> ('s, 'a, 'x) env \<Rightarrow> 'a heap \<Rightarrow> addr \<Rightarrow> 's \<Rightarrow> rng \<Rightarrow> error + ('a \<times> rng)" where
  "get_best F E h n st g =
     (case children (nodes h n) of
        [] \<Rightarrow> choice g (state_get_actions E st)
      | c # cs \<Rightarrow> Inr (fst (py_max_loop (avg_key F h) c cs), g))"

subsection \<open>MCTSAgent.choose_card\<close>

text \<open>
  The loop \<^verbatim>\<open>for _ in range(self.iterations)\<close>, by recursion on the number of
  iterations left. \<^verbatim>\<open>choose_card\<close> returns, next to the action, the store of the
  TreeNode objects it has constructed and the generator it leaves behind. The branch for
  \<^verbatim>\<open>best_action is None\<close> is not reachable from \<^verbatim>\<open>get_best\<close>, which returns an element
  of a list of actions or raises; printing (\<^verbatim>\<open>print_tree\<close>, the DEBUG lines) and
  \<^verbatim>\<open>time.time()\<close> read the store without changing it and are left out.
\<close>

fun iterate ::
  "arith \<Rightarrow> ('s, 'a, 'x) env \<Rightarrow> nat \<Rightarrow> 'a heap \<Rightarrow> addr \<Rightarrow> 's \<Rightarrow> rng \<Rightarrow> (error + ('a heap \<times> rng)) option" where
  "iterate F E 0 h t battle_state g = Some (Inr (h, g))"
| "iterate F E (Suc k) h t battle_state g =
     (case copy_undeterministic E battle_state g of (sample_state, g1) \<Rightarrow>
        (case step F E h t sample_state g1 of
           None \<Rightarrow> None
         | Some (Inl e) \<Rightarrow> Some (Inl e)
         | Some (Inr (h1, _, g2)) \<Rightarrow> iterate F E k h1 t battle_state g2))"

definition choose_card ::
  "arith \<Rightarrow> ('s, 'a, 'x) env \<Rightarrow> int \<Rightarrow> pyfloat \<Rightarrow> 's \<Rightarrow> rng
     \<Rightarrow> (error + ('x \<times> 'a heap \<times> rng)) option" where
  "choose_card F E iterations p battle_state g =
     (let actions = state_get_actions E battle_state in
      if length actions = 1 then Some (Inr (to_action E (actions ! 0) battle_state, heap_empty, g))
      else
        (case new_TreeNode heap_empty p None of (t, h0) \<Rightarrow>
           (case iterate F E (nat iterations) h0 t battle_state g of
              None \<Rightarrow> None
            | Some (Inl e) \<Rightarrow> Some (Inl e)
            | Some (Inr (h, g1)) \<Rightarrow>
                (case get_best F E h t battle_state g1 of
                   Inl e \<Rightarrow> Some (Inl e)
                 | Inr (best_action, g2) \<Rightarrow>
                     Some (Inr (to_action E best_action battle_state, h, g2))))))"

subsection \<open>Specification-side notions\<close>

text \<open>
  The sum of the visit counts over the candidate children (those whose action is in the
  current legal-action list), as the specification words the total \<open>N\<close>, and the
  sum over the remaining, stale children.
\<close>

definition candidate_visits :: "'a heap \<Rightarrow> addr \<Rightarrow> 'a list \<Rightarrow> nat" where
  "candidate_visits h n actions =
     sum_list (map (\<lambda>ac. visits (nodes h (snd ac)))
       (filter (\<lambda>ac. fst ac \<in> set actions) (children (nodes h n))))"

definition stale_visits :: "'a heap \<Rightarrow> addr \<Rightarrow> 'a list \<Rightarrow> nat" where
  "stale_visits h n actions =
     sum_list (map (\<lambda>ac. visits (nodes h (snd ac)))
       (filter (\<lambda>ac. fst ac \<notin> set actions) (children (nodes h n))))"

text \<open>
  The UCB1 score as the specification words it, for a child with \<open>v\<close> visits and
  results \<open>rs\<close> under exploration parameter \<open>c\<close> and total \<open>N\<close>: positive infinity
  without visits, else the average plus \<open>c\<close> times the square root of \<open>ln N / v\<close>,
  the logarithm taken as 0 when \<open>N\<close> is 0. The arithmetic is the machine's.
\<close>

definition ucb1_spec :: "arith \<Rightarrow> pyfloat \<Rightarrow> nat \<Rightarrow> nat \<Rightarrow> pyfloat list \<Rightarrow> pyfloat" where
  "ucb1_spec F c N v rs =
     (if v = 0 then PosInf
      else py_add F (py_div_nat F (py_sum F rs) v)
             (py_mul F c (py_sqrt F (py_div_nat F (if N = 0 then Fin 0 else py_log F N) v))))"

definition child_ucb1 :: "arith \<Rightarrow> 'a heap \<Rightarrow> addr \<Rightarrow> nat \<Rightarrow> 'a \<times> addr \<Rightarrow> pyfloat" where
  "child_ucb1 F h n N ac =
     ucb1_spec F (param (nodes h n)) N (visits (nodes h (snd ac))) (results (nodes h (snd ac)))"

text \<open>
  The value of a child at decision time as the specification words it: the sum of its
  outcomes over its visit count, negative infinity for a child without visits.
\<close>

definition average_outcome :: "arith \<Rightarrow> 'a heap \<Rightarrow> 'a \<times> addr \<Rightarrow> pyfloat" where
  "average_outcome F h ac =
     (if visits (nodes h (snd ac)) = 0 then NegInf
      else py_div_nat F (py_sum F (results (nodes h (snd ac)))) (visits (nodes h (snd ac))))"

text \<open>
  The chain of parent references from a node up to the root, as a list that starts at
  the node and ends at a node without parent.
\<close>

fun parent_chain :: "'a heap \<Rightarrow> addr \<Rightarrow> addr list \<Rightarrow> bool" where
  "parent_chain h a [] = False"
| "parent_chain h a [x] = (x = a \<and> parent (nodes h a) = None)"
| "parent_chain h a (x # y # ys) =
     (x = a \<and> parent (nodes h a) = Some y \<and> parent_chain h y (y # ys))"

text \<open>Invariants of the store, over the TreeNode objects constructed so far.\<close>

definition consistent :: "'a heap \<Rightarrow> bool" where
  "consistent h = (\<forall>a<fresh h. visits (nodes h a) = length (results (nodes h a)))"

definition unique_actions :: "'a heap \<Rightarrow> bool" where
  "unique_actions h = (\<forall>a<fresh h. distinct (map fst (children (nodes h a))))"

definition children_allocated :: "'a heap \<Rightarrow> bool" where
  "children_allocated h = (\<forall>a<fresh h. \<forall>ac\<in>set (children (nodes h a)). snd ac < fresh h)"

text \<open>
  A later store extends an earlier one: no TreeNode has disappeared, and the children
  list of every TreeNode of the earlier store has only grown at its end.
\<close>

definition extends :: "'a heap \<Rightarrow> 'a heap \<Rightarrow> bool" where
  "extends h h' =
     (fresh h \<le> fresh h' \<and>
      (\<forall>a<fresh h. \<exists>ys. children (nodes h' a) = children (nodes h a) @ ys))"

subsection \<open>An arithmetic, an environment and stores for concrete runs\<close>

text \<open>
  \<open>F0\<close> computes exactly on finite values. The runs below use it where binary64
  arithmetic decides every comparison the same way: their scores and averages are exact
  in binary64 (sums and quotients of 0, 1 and 2, the logarithm of 1), or they are
  compared with an infinity only, or it is \<open>1 + sqrt (ln 2) / 2\<close> against 1.
\<close>

fun lift1 :: "(real \<Rightarrow> real) \<Rightarrow> pyfloat \<Rightarrow> pyfloat" where
  "lift1 f (Fin x) = Fin (f x)"
| "lift1 f x = NaN"

fun lift2 :: "(real \<Rightarrow> real \<Rightarrow> real) \<Rightarrow> pyfloat \<Rightarrow> pyfloat \<Rightarrow> pyfloat" where
  "lift2 f (Fin x) (Fin y) = Fin (f x y)"
| "lift2 f x y = NaN"

definition F0 :: arith where
  "F0 = \<lparr>py_sum = (\<lambda>rs. foldl (lift2 (+)) (Fin 0) rs),
         py_div_nat = (\<lambda>x k. lift1 (\<lambda>r. r / real k) x),
         py_log = (\<lambda>k. Fin (ln (real k))),
         py_sqrt = lift1 sqrt,
         py_mul = lift2 (*),
         py_add = lift2 (+)\<rparr>"

datatype act = A | B | X

datatype st = Play | PlayX | Forced | Done

text \<open>
  Every action ends the game with score 1. The legal actions depend on the state:
  \<open>Play\<close> offers \<open>A\<close> and \<open>B\<close>, \<open>PlayX\<close> offers \<open>X\<close> and \<open>A\<close>, \<open>Forced\<close> only \<open>A\<close>.
  In \<open>E0\<close> the sampled copy is the state itself; in \<open>E1\<close> the copy resolves hidden
  information by a random draw, to \<open>PlayX\<close> or to \<open>Play\<close>.
\<close>

definition E0 :: "(st, act, act) env" where
  "E0 = \<lparr>state_ended = (\<lambda>s. s = Done),
         state_get_actions =
           (\<lambda>s. case s of Play \<Rightarrow> [A, B] | PlayX \<Rightarrow> [X, A] | Forced \<Rightarrow> [A] | Done \<Rightarrow> []),
         state_step = (\<lambda>s a g. (Done, g)),
         state_score = (\<lambda>s. Fin 1),
         copy_undeterministic = (\<lambda>s g. (s, g)),
         to_action = (\<lambda>a s. a)\<rparr>"

definition E1 :: "(st, act, act) env" where
  "E1 = E0\<lparr>copy_undeterministic :=
              (\<lambda>s g. (if g 0 = 0 then PlayX else Play, (\<lambda>i. g (Suc i))))\<rparr>"

definition g0 :: rng where
  "g0 = (\<lambda>_. 0)"

text \<open>Draws under which the first two copies of \<open>E1\<close> are \<open>PlayX\<close> and the third is \<open>Play\<close>.\<close>

definition g_mixed :: rng where
  "g_mixed = (\<lambda>i. if i = 4 then 1 else 0)"

definition leaf :: "addr \<Rightarrow> act TreeNode" where
  "leaf p = \<lparr>children = [], parent = Some p, results = [Fin 1], visits = 1, param = Fin (1/2)\<rparr>"

text \<open>A root whose first child belongs to an action that the state \<open>Play\<close> does not offer.\<close>

definition h_stale :: "act heap" where
  "h_stale =
     \<lparr>nodes = (\<lambda>_. TreeNode_init (Fin 0) None)
        (0 := \<lparr>children = [(X, 1), (A, 2)], parent = None, results = [Fin 1, Fin 1],
               visits = 2, param = Fin (1/2)\<rparr>,
         1 := leaf 0, 2 := leaf 0),
      fresh = 3\<rparr>"

text \<open>A root whose only child belongs to an action that the state \<open>Forced\<close> does not offer.\<close>

definition h_one_stale :: "act heap" where
  "h_one_stale =
     \<lparr>nodes = (\<lambda>_. TreeNode_init (Fin 0) None)
        (0 := \<lparr>children = [(X, 1)], parent = None, results = [Fin 1], visits = 1,
               param = Fin (1/2)\<rparr>,
         1 := leaf 0),
      fresh = 2\<rparr>"

text \<open>A root with one visited and one unvisited child, both legal in \<open>Play\<close>.\<close>

definition h_two :: "act heap" where
  "h_two =
     \<lparr>nodes = (\<lambda>_. TreeNode_init (Fin 0) None)
        (0 := \<lparr>children = [(A, 1), (B, 2)], parent = None, results = [Fin 1], visits = 1,
               param = Fin (1/2)\<rparr>,
         1 := leaf 0,
         2 := \<lparr>children = [], parent = Some 0, results = [], visits = 0,
               param = Fin (1/2)\<rparr>),
      fresh = 3\<rparr>"

text \<open>
  A root whose first child has the average 1/2 over two visits and whose second child
  has the average 1 over two visits.
\<close>

definition h_avg :: "act heap" where
  "h_avg =
     \<lparr>nodes = (\<lambda>_. TreeNode_init (Fin 0) None)
        (0 := \<lparr>children = [(A, 1), (B, 2)], parent = None,
               results = [Fin 0, Fin 1, Fin 1, Fin 1], visits = 4, param = Fin (1/2)\<rparr>,
         1 := \<lparr>children = [], parent = Some 0, results = [Fin 0, Fin 1], visits = 2,
               param = Fin (1/2)\<rparr>,
         2 := \<lparr>children = [], parent = Some 0, results = [Fin 1, Fin 1], visits = 2,
               param = Fin (1/2)\<rparr>),
      fresh = 3\<rparr>"

text \<open>A root whose first child has no visits and whose second child has one.\<close>

definition h_unvisited_first :: "act heap" where
  "h_unvisited_first =
     \<lparr>nodes = (\<lambda>_. TreeNode_init (Fin 0) None)
        (0 := \<lparr>children = [(B, 2), (A, 1)], parent = None, results = [Fin 1], visits = 1,
               param = Fin (1/2)\<rparr>,
         1 := leaf 0,
         2 := \<lparr>children = [], parent = Some 0, results = [], visits = 0,
               param = Fin (1/2)\<rparr>),
      fresh = 3\<rparr>"

text \<open>The store right after the root has been constructed.\<close>

definition h_root :: "act heap" where
  "h_root = snd (new_TreeNode heap_empty (Fin (1/2)) None)"

text \<open>The store after \<open>r\<close> has been recorded once in each of the nodes \<open>xs\<close>.\<close>

definition recorded :: "pyfloat \<Rightarrow> addr list \<Rightarrow> 'a heap \<Rightarrow> 'a heap" where
  "recorded r xs h =
     h\<lparr>nodes := (\<lambda>a. if a \<in> set xs then record_result r (nodes h a) else nodes h a)\<rparr>"

section \<open>Basic facts\<close>

lemma py_gt_trans: "py_gt a b \<Longrightarrow> py_gt b c \<Longrightarrow> py_gt a c"
  by (cases a; cases b; cases c) simp_all

lemma py_gt_ge_trans: "py_gt a b \<Longrightarrow> py_ge b c \<Longrightarrow> py_gt a c"
  by (cases a; cases b; cases c) simp_all

lemma py_ge_trans: "py_ge a b \<Longrightarrow> py_ge b c \<Longrightarrow> py_ge a c"
  by (cases a; cases b; cases c) simp_all

lemma py_gt_imp_ge: "py_gt a b \<Longrightarrow> py_ge a b"
  by (cases a; cases b) simp_all

lemma py_ge_refl: "a \<noteq> NaN \<Longrightarrow> py_ge a a"
  by (cases a) simp_all

lemma py_not_gt_ge: "a \<noteq> NaN \<Longrightarrow> b \<noteq> NaN \<Longrightarrow> \<not> py_gt a b \<Longrightarrow> py_ge b a"
  by (cases a; cases b) simp_all

lemma py_gt_not_NaN: "py_gt a b \<Longrightarrow> a \<noteq> NaN"
  by (cases a) simp_all

lemma py_gt_NegInf_iff: "py_gt a NegInf = (finite_float a \<or> a = PosInf)"
  by (cases a) simp_all

lemma py_ge_NegInf_iff: "py_ge a NegInf = (a \<noteq> NaN)"
  by (cases a) simp_all

lemma py_ge_not_gt: "py_ge a b \<Longrightarrow> \<not> py_gt b a"
  by (cases a; cases b) simp_all


section \<open>The driver\<close>

text \<open>
  C9. On a state whose legal-action list has exactly one element, \<^verbatim>\<open>choose_card\<close>
  returns that action, converted by \<open>to_action\<close>, whatever the iteration count: the
  store it hands back is the empty one (no root TreeNode was constructed) and the
  generator is the one it was given (no iteration, hence no random draw, took place).
\<close>

theorem choose_card_single_action:
  assumes "length (state_get_actions E battle_state) = 1"
  shows "choose_card F E iterations p battle_state g =
           Some (Inr (to_action E (hd (state_get_actions E battle_state)) battle_state,
                      heap_empty, g))"
  using assms by (cases "state_get_actions E battle_state") (simp_all add: choose_card_def)

theorem choose_card_single_action_witness:
  "length (state_get_actions E0 Forced) = 1 \<and>
   choose_card F0 E0 50 (Fin (1/2)) Forced g0 = Some (Inr (A, heap_empty, g0))"
  using choose_card_single_action [of E0 Forced F0 50 "Fin (1/2)" g0] by (simp add: E0_def)


section \<open>get_best\<close>

lemma py_max_loop_greatest:
  assumes "\<forall>x\<in>set (best # xs). key x \<noteq> NaN"
  shows "py_max_loop key best xs \<in> set (best # xs) \<and>
         (\<forall>x\<in>set (best # xs). py_ge (key (py_max_loop key best xs)) (key x))"
  using assms
proof (induction xs arbitrary: best)
  case Nil
  then show ?case by (simp add: py_ge_refl)
next
  case (Cons x xs)
  from Cons.prems have nb: "key best \<noteq> NaN" and nx: "key x \<noteq> NaN"
    and nxs: "\<forall>y\<in>set xs. key y \<noteq> NaN" by simp_all
  show ?case
  proof (cases "py_gt (key x) (key best)")
    case True
    let ?r = "py_max_loop key x xs"
    from Cons.IH [of x] nx nxs
    have mem: "?r \<in> set (x # xs)" and gr: "\<forall>y\<in>set (x # xs). py_ge (key ?r) (key y)"
      by simp_all
    from gr have "py_ge (key ?r) (key x)" by simp
    with True have "py_ge (key ?r) (key best)"
      by (blast intro: py_ge_trans py_gt_imp_ge)
    with mem gr True show ?thesis by simp
  next
    case False
    let ?r = "py_max_loop key best xs"
    from Cons.IH [of best] nb nxs
    have mem: "?r \<in> set (best # xs)" and gr: "\<forall>y\<in>set (best # xs). py_ge (key ?r) (key y)"
      by simp_all
    have "py_ge (key best) (key x)" by (rule py_not_gt_ge [OF nx nb False])
    moreover from gr have "py_ge (key ?r) (key best)" by simp
    ultimately have "py_ge (key ?r) (key x)" by (blast intro: py_ge_trans)
    with mem gr False show ?thesis by auto
  qed
qed

lemma avg_key_average_outcome: "avg_key F h = average_outcome F h"
  by (simp add: avg_key_def average_outcome_def fun_eq_iff)

lemma average_outcome_not_NaN:
  assumes "0 < visits (nodes h (snd ac)) \<longrightarrow> finite_float (average_outcome F h ac)"
  shows "average_outcome F h ac \<noteq> NaN"
proof (cases "visits (nodes h (snd ac)) = 0")
  case True
  then show ?thesis by (simp add: average_outcome_def)
next
  case False
  with assms have "finite_float (average_outcome F h ac)" by simp
  then show ?thesis by (cases "average_outcome F h ac") simp_all
qed

text \<open>
  C6. On a root without children \<^verbatim>\<open>get_best\<close> is \<^verbatim>\<open>random.choice\<close> on the state's
  legal actions: with a non-empty list it returns the legal action at the index that
  the generator draws. Otherwise, when the average of every visited child is a finite
  float, it returns the action of a child whose average outcome (\<open>average_outcome\<close>:
  the sum of the outcomes over the visit count, negative infinity for a child without
  visits) is greater than or equal to that of every child, and that child has been
  visited as soon as any child has.
\<close>

theorem get_best_greatest_average:
  "(children (nodes h n) = [] \<longrightarrow>
      get_best F E h n st g = choice g (state_get_actions E st) \<and>
      (state_get_actions E st \<noteq> [] \<longrightarrow>
         get_best F E h n st g =
           Inr (state_get_actions E st ! (g 0 mod length (state_get_actions E st)),
                (\<lambda>i. g (Suc i))) \<and>
         g 0 mod length (state_get_actions E st) < length (state_get_actions E st))) \<and>
   (children (nodes h n) \<noteq> [] \<and>
    (\<forall>ac\<in>set (children (nodes h n)).
       0 < visits (nodes h (snd ac)) \<longrightarrow> finite_float (average_outcome F h ac)) \<longrightarrow>
      (\<exists>best\<in>set (children (nodes h n)).
         get_best F E h n st g = Inr (fst best, g) \<and>
         (\<forall>ac\<in>set (children (nodes h n)).
            py_ge (average_outcome F h best) (average_outcome F h ac)) \<and>
         ((\<exists>ac\<in>set (children (nodes h n)). 0 < visits (nodes h (snd ac))) \<longrightarrow>
            0 < visits (nodes h (snd best)))))"
proof (cases "children (nodes h n)")
  case Nil
  then show ?thesis by (simp add: get_best_def choice_def)
next
  case (Cons c cs)
  let ?b = "py_max_loop (avg_key F h) c cs"
  have gb: "get_best F E h n st g = Inr (fst ?b, g)"
    using Cons by (simp add: get_best_def)
  have "\<exists>best\<in>set (c # cs). get_best F E h n st g = Inr (fst best, g) \<and>
         (\<forall>ac\<in>set (c # cs). py_ge (average_outcome F h best) (average_outcome F h ac)) \<and>
         ((\<exists>ac\<in>set (c # cs). 0 < visits (nodes h (snd ac))) \<longrightarrow>
            0 < visits (nodes h (snd best)))"
    if fin: "\<forall>ac\<in>set (c # cs).
       0 < visits (nodes h (snd ac)) \<longrightarrow> finite_float (average_outcome F h ac)"
  proof -
    have "\<forall>x\<in>set (c # cs). avg_key F h x \<noteq> NaN"
      using fin average_outcome_not_NaN [of h _ F] by (simp add: avg_key_average_outcome)
    from py_max_loop_greatest [OF this]
    have mem: "?b \<in> set (c # cs)"
      and gr: "\<forall>x\<in>set (c # cs). py_ge (average_outcome F h ?b) (average_outcome F h x)"
      by (simp_all add: avg_key_average_outcome)
    have "0 < visits (nodes h (snd ?b))"
      if ac: "ac \<in> set (c # cs)" and v: "0 < visits (nodes h (snd ac))" for ac
    proof (rule ccontr)
      assume "\<not> 0 < visits (nodes h (snd ?b))"
      then have b: "average_outcome F h ?b = NegInf" by (simp add: average_outcome_def)
      from fin ac v have "finite_float (average_outcome F h ac)" by blast
      moreover from gr ac b have "py_ge NegInf (average_outcome F h ac)" by auto
      ultimately show False by (cases "average_outcome F h ac") simp_all
    qed
    then have vis: "(\<exists>ac\<in>set (c # cs). 0 < visits (nodes h (snd ac))) \<longrightarrow>
      0 < visits (nodes h (snd ?b))" by blast
    from mem gr vis gb show ?thesis by (intro bexI [of _ ?b] conjI)
  qed
  then show ?thesis using Cons by simp
qed

theorem get_best_greatest_average_witness:
  "children (nodes h_avg 0) = [(A, 1), (B, 2)] \<and>
   average_outcome F0 h_avg (A, 1) = Fin (1/2) \<and> average_outcome F0 h_avg (B, 2) = Fin 1 \<and>
   get_best F0 E0 h_avg 0 Play g0 = Inr (B, g0) \<and>
   children (nodes h_unvisited_first 0) = [(B, 2), (A, 1)] \<and>
   visits (nodes h_unvisited_first 2) = 0 \<and> 0 < visits (nodes h_unvisited_first 1) \<and>
   get_best F0 E0 h_unvisited_first 0 Play g0 = Inr (A, g0) \<and>
   children (nodes (heap_empty :: act heap) 0) = [] \<and> state_get_actions E0 Play \<noteq> [] \<and>
   get_best F0 E0 heap_empty 0 Play g0 = Inr (A, \<lambda>i. g0 (Suc i))"
proof -
  have avA: "average_outcome F0 h_avg (A, 1) = Fin (1/2)"
    and avB: "average_outcome F0 h_avg (B, 2) = Fin 1"
    by (simp_all add: average_outcome_def h_avg_def F0_def)
  have cs: "children (nodes h_avg 0) = [(A, 1), (B, 2)]" by (simp add: h_avg_def)
  have fin: "\<forall>ac\<in>set (children (nodes h_avg 0)).
       0 < visits (nodes h_avg (snd ac)) \<longrightarrow> finite_float (average_outcome F0 h_avg ac)"
    by (simp add: h_avg_def average_outcome_def F0_def)
  from get_best_greatest_average [of h_avg 0 F0 E0 Play g0] cs fin
  obtain best where b: "best \<in> set (children (nodes h_avg 0))"
    and gb: "get_best F0 E0 h_avg 0 Play g0 = Inr (fst best, g0)"
    and gr: "\<forall>ac\<in>set (children (nodes h_avg 0)).
            py_ge (average_outcome F0 h_avg best) (average_outcome F0 h_avg ac)"
    by auto
  have "(B, 2) \<in> set (children (nodes h_avg 0))" by (simp add: cs)
  with gr have ge: "py_ge (average_outcome F0 h_avg best) (average_outcome F0 h_avg (B, 2))"
    by (rule bspec)
  have "best \<noteq> (A, 1)"
  proof
    assume "best = (A, 1)"
    with ge have "py_ge (Fin (1/2)) (Fin 1)" by (simp only: avA avB)
    then show False by simp
  qed
  moreover from b have "best = (A, 1) \<or> best = (B, 2)" by (simp add: cs)
  ultimately have "best = (B, 2)" by blast
  with gb have r1: "get_best F0 E0 h_avg 0 Play g0 = Inr (B, g0)" by simp
  have cs2: "children (nodes h_unvisited_first 0) = [(B, 2), (A, 1)]"
    and v2: "visits (nodes h_unvisited_first 2) = 0" "0 < visits (nodes h_unvisited_first 1)"
    by (simp_all add: h_unvisited_first_def leaf_def)
  have fin2: "\<forall>ac\<in>set (children (nodes h_unvisited_first 0)).
       0 < visits (nodes h_unvisited_first (snd ac)) \<longrightarrow>
       finite_float (average_outcome F0 h_unvisited_first ac)"
    by (simp add: average_outcome_def h_unvisited_first_def leaf_def F0_def)
  from get_best_greatest_average [of h_unvisited_first 0 F0 E0 Play g0] cs2 fin2 v2
  obtain best2 where b2: "best2 \<in> set (children (nodes h_unvisited_first 0))"
    and gb2: "get_best F0 E0 h_unvisited_first 0 Play g0 = Inr (fst best2, g0)"
    and vb: "0 < visits (nodes h_unvisited_first (snd best2))"
    by auto
  have "best2 \<noteq> (B, 2)"
  proof
    assume "best2 = (B, 2)"
    with vb v2(1) show False by simp
  qed
  moreover from b2 have "best2 = (B, 2) \<or> best2 = (A, 1)" by (simp add: cs2)
  ultimately have "best2 = (A, 1)" by blast
  with gb2 have r2: "get_best F0 E0 h_unvisited_first 0 Play g0 = Inr (A, g0)" by simp
  have r3: "children (nodes (heap_empty :: act heap) 0) = [] \<and>
      state_get_actions E0 Play \<noteq> [] \<and>
      get_best F0 E0 heap_empty 0 Play g0 = Inr (A, \<lambda>i. g0 (Suc i))"
    using get_best_greatest_average [of heap_empty 0 F0 E0 Play g0]
    by (simp add: heap_empty_def TreeNode_init_def E0_def g0_def choice_def)
  from cs avA avB r1 cs2 v2 r2 r3 show ?thesis by simp
qed


section \<open>expand\<close>


lemma choice_Inr:
  "xs \<noteq> [] \<Longrightarrow> \<exists>x g1. choice g xs = Inr (x, g1) \<and> x \<in> set xs"
  by (simp add: choice_def)




section \<open>backpropagate\<close>

lemma parent_chain_hd: "parent_chain h a (x # xs) \<Longrightarrow> x = a"
  by (cases xs) auto

lemma parent_chain_unique:
  "parent_chain h a xs \<Longrightarrow> parent_chain h a ys \<Longrightarrow> xs = ys"
proof (induction xs arbitrary: a ys)
  case Nil
  then show ?case by simp
next
  case (Cons x xs)
  from Cons.prems(2) obtain y ys' where ys: "ys = y # ys'" by (cases ys) auto
  show ?case
  proof (cases xs)
    case Nil
    with Cons.prems ys show ?thesis by (cases ys') auto
  next
    case (Cons z zs)
    with Cons.prems ys obtain w ws where ys': "ys' = w # ws" by (cases ys') auto
    from Cons Cons.prems ys ys' have "parent_chain h z xs" "parent_chain h z ys'" "x = y"
      by auto
    with Cons.IH [of z ys'] ys show ?thesis by simp
  qed
qed

lemma parent_chain_from_member:
  "parent_chain h a xs \<Longrightarrow> x \<in> set xs \<Longrightarrow>
     \<exists>suf. parent_chain h x (x # suf) \<and> length (x # suf) \<le> length xs"
proof (induction xs arbitrary: a)
  case Nil
  then show ?case by simp
next
  case (Cons y ys)
  show ?case
  proof (cases "x = y")
    case True
    from Cons.prems(1) have "y = a" by (cases ys) auto
    with True Cons.prems(1) have "parent_chain h x (x # ys)" by simp
    then show ?thesis by (intro exI [of _ ys]) simp
  next
    case False
    with Cons.prems have mem: "x \<in> set ys" by simp
    then obtain z zs where ys: "ys = z # zs" by (cases ys) auto
    with Cons.prems(1) have "parent_chain h z ys" by simp
    from Cons.IH [OF this mem] show ?thesis by auto
  qed
qed

lemma parent_chain_distinct: "parent_chain h a xs \<Longrightarrow> distinct xs"
proof (induction xs arbitrary: a)
  case Nil
  then show ?case by simp
next
  case (Cons x xs)
  show ?case
  proof (cases xs)
    case Nil
    then show ?thesis by simp
  next
    case (Cons y ys)
    with Cons.prems have ch: "parent_chain h y xs" and xa: "x = a" by simp_all
    have "x \<notin> set xs"
    proof
      assume "x \<in> set xs"
      from parent_chain_from_member [OF ch this] obtain suf where
        s: "parent_chain h x (x # suf)" and l: "length (x # suf) \<le> length xs" by blast
      from parent_chain_unique [OF s] Cons.prems xa have "x # suf = x # xs" by simp
      with l show False by simp
    qed
    with Cons.IH [OF ch] show ?thesis by simp
  qed
qed

lemma parent_record_result [simp]: "parent (record_result r nd) = parent nd"
  by (simp add: record_result_def)

lemma parent_chain_update:
  "parent_chain h a xs \<Longrightarrow>
   parent_chain (h\<lparr>nodes := (nodes h)(b := record_result r (nodes h b))\<rparr>) a xs"
proof (induction xs arbitrary: a)
  case Nil
  then show ?case by simp
next
  case (Cons x xs)
  then show ?case by (cases xs) auto
qed

lemma backpropagate_chain:
  "parent_chain h L xs \<Longrightarrow> backpropagate h L r = Some (recorded r xs h)"
proof (induction xs arbitrary: h L)
  case Nil
  then show ?case by simp
next
  case (Cons x xs)
  let ?h1 = "h\<lparr>nodes := (nodes h)(L := record_result r (nodes h L))\<rparr>"
  from Cons.prems have xL: "x = L" by (cases xs) auto
  show ?case
  proof (cases xs)
    case Nil
    with Cons.prems have "parent (nodes h L) = None" by simp
    then have "backpropagate h L r = Some ?h1"
      by (subst backpropagate.simps) (simp add: Let_def)
    moreover have "?h1 = recorded r (x # xs) h"
      using Nil xL by (auto simp: recorded_def fun_eq_iff)
    ultimately show ?thesis by simp
  next
    case (Cons y ys)
    with Cons.prems have par: "parent (nodes h L) = Some y" and ch: "parent_chain h y xs"
      by simp_all
    from parent_chain_distinct [OF Cons.prems] xL have notin: "L \<notin> set xs" by simp
    have "backpropagate h L r = backpropagate ?h1 y r"
      using par by (subst backpropagate.simps) (simp add: Let_def)
    also have "\<dots> = Some (recorded r xs ?h1)"
      by (rule Cons.IH) (rule parent_chain_update [OF ch])
    also have "recorded r xs ?h1 = recorded r (x # xs) h"
      using notin xL by (auto simp: recorded_def fun_eq_iff)
    finally show ?thesis .
  qed
qed

text \<open>
  C4. For a node \<open>L\<close> whose parent references lead to the root along \<open>xs\<close> (the
  node itself, its ancestors, the root last), \<^verbatim>\<open>backpropagate\<close> returns, and in the
  store it leaves every node of \<open>xs\<close> has one more visit and the result appended once
  to its results, with children, parent and param as before, while every node outside
  \<open>xs\<close> is as before.
\<close>

theorem backpropagate_frame:
  assumes "parent_chain h L xs"
  shows "\<exists>h'. backpropagate h L r = Some h' \<and> fresh h' = fresh h \<and>
           L \<in> set xs \<and> distinct xs \<and>
           (\<forall>a\<in>set xs. visits (nodes h' a) = visits (nodes h a) + 1 \<and>
                        results (nodes h' a) = results (nodes h a) @ [r] \<and>
                        children (nodes h' a) = children (nodes h a) \<and>
                        parent (nodes h' a) = parent (nodes h a) \<and>
                        param (nodes h' a) = param (nodes h a)) \<and>
           (\<forall>a. a \<notin> set xs \<longrightarrow> nodes h' a = nodes h a)"
proof -
  have "L \<in> set xs" using assms by (cases xs) (auto dest: parent_chain_hd)
  moreover have "distinct xs" using assms by (rule parent_chain_distinct)
  moreover have "backpropagate h L r = Some (recorded r xs h)"
    using assms by (rule backpropagate_chain)
  ultimately show ?thesis
    by (simp add: recorded_def record_result_def)
qed

theorem backpropagate_frame_witness:
  "parent_chain h_stale 2 [2, 0] \<and>
   (\<exists>h'. backpropagate h_stale 2 (Fin 7) = Some h' \<and>
      visits (nodes h' 2) = 2 \<and> results (nodes h' 2) = [Fin 1, Fin 7] \<and>
      visits (nodes h' 0) = 3 \<and> results (nodes h' 0) = [Fin 1, Fin 1, Fin 7] \<and>
      nodes h' 1 = nodes h_stale 1)"
proof -
  have c: "parent_chain h_stale 2 [2, 0]"
    by (simp add: h_stale_def leaf_def)
  from backpropagate_frame [OF c, of "Fin 7"] obtain h' where
    "backpropagate h_stale 2 (Fin 7) = Some h'"
    "\<forall>a\<in>set [2, 0]. visits (nodes h' a) = visits (nodes h_stale a) + 1 \<and>
                        results (nodes h' a) = results (nodes h_stale a) @ [Fin 7]"
    "\<forall>a. a \<notin> set [2, 0::nat] \<longrightarrow> nodes h' a = nodes h_stale a"
    by blast
  then have "backpropagate h_stale 2 (Fin 7) = Some h' \<and>
      visits (nodes h' 2) = 2 \<and> results (nodes h' 2) = [Fin 1, Fin 7] \<and>
      visits (nodes h' 0) = 3 \<and> results (nodes h' 0) = [Fin 1, Fin 1, Fin 7] \<and>
      nodes h' 1 = nodes h_stale 1"
    by (simp add: h_stale_def leaf_def)
  with c show ?thesis by blast
qed


section \<open>The UCB1 selection of select\<close>

text \<open>
  The loop over the children, when the score of every candidate compares greater than
  negative infinity (it is finite or positive infinity): either no candidate beats the
  incoming best score and the accumulator is unchanged, or the loop ends with the first
  candidate whose score no other candidate exceeds.
\<close>

lemma ucb_loop_first_greatest:
  assumes "\<forall>ac\<in>set cs. fst ac \<in> set actions \<longrightarrow>
             py_gt (ucb_score F c lt (nodes h (snd ac))) NegInf"
    and "bs \<noteq> NaN"
  shows "((\<forall>x\<in>set cs. fst x \<in> set actions \<longrightarrow>
             py_ge bs (ucb_score F c lt (nodes h (snd x)))) \<and>
            ucb_loop F h c lt actions cs (bs, b) = (bs, b)) \<or>
         (\<exists>i<length cs.
            fst (cs ! i) \<in> set actions \<and>
            ucb_loop F h c lt actions cs (bs, b) =
              (ucb_score F c lt (nodes h (snd (cs ! i))), Some (cs ! i)) \<and>
            py_gt (ucb_score F c lt (nodes h (snd (cs ! i)))) bs \<and>
            (\<forall>j<length cs. fst (cs ! j) \<in> set actions \<longrightarrow>
               py_ge (ucb_score F c lt (nodes h (snd (cs ! i))))
                     (ucb_score F c lt (nodes h (snd (cs ! j))))) \<and>
            (\<forall>j<i. fst (cs ! j) \<in> set actions \<longrightarrow>
               py_gt (ucb_score F c lt (nodes h (snd (cs ! i))))
                     (ucb_score F c lt (nodes h (snd (cs ! j))))))"
  using assms
proof (induction cs arbitrary: bs b)
  case Nil
  show ?case by simp
next
  case (Cons x xs)
  let ?f = "\<lambda>ac. ucb_score F c lt (nodes h (snd ac))"
  let ?L = "\<lambda>ac. fst ac \<in> set actions"
  obtain a nd where x: "x = (a, nd)" by (cases x)
  from Cons.prems(1) have rest: "\<forall>ac\<in>set xs. ?L ac \<longrightarrow> py_gt (?f ac) NegInf"
    by simp
  note bs = Cons.prems(2)
  have shift: ?case
    if i: "i < length xs" and li: "?L (xs ! i)"
      and eq: "ucb_loop F h c lt actions (x # xs) (bs, b) = (?f (xs ! i), Some (xs ! i))"
      and gt: "py_gt (?f (xs ! i)) bs"
      and all: "\<forall>j<length xs. ?L (xs ! j) \<longrightarrow> py_ge (?f (xs ! i)) (?f (xs ! j))"
      and first: "\<forall>j<i. ?L (xs ! j) \<longrightarrow> py_gt (?f (xs ! i)) (?f (xs ! j))"
      and hd: "?L x \<longrightarrow> py_gt (?f (xs ! i)) (?f x)" for i
  proof -
    have a1: "\<forall>j<length (x # xs). ?L ((x # xs) ! j) \<longrightarrow>
        py_ge (?f ((x # xs) ! Suc i)) (?f ((x # xs) ! j))"
    proof (intro allI impI)
      fix j assume "j < length (x # xs)" "?L ((x # xs) ! j)"
      then show "py_ge (?f ((x # xs) ! Suc i)) (?f ((x # xs) ! j))"
        using all hd by (cases j) (auto intro: py_gt_imp_ge)
    qed
    have a2: "\<forall>j<Suc i. ?L ((x # xs) ! j) \<longrightarrow>
        py_gt (?f ((x # xs) ! Suc i)) (?f ((x # xs) ! j))"
    proof (intro allI impI)
      fix j assume "j < Suc i" "?L ((x # xs) ! j)"
      then show "py_gt (?f ((x # xs) ! Suc i)) (?f ((x # xs) ! j))"
        using first hd by (cases j) auto
    qed
    from i li eq gt a1 a2 show ?thesis
      by (intro disjI2 exI [of _ "Suc i"]) simp
  qed
  show ?case
  proof (cases "?L x")
    case False
    then have run: "ucb_loop F h c lt actions (x # xs) (bs, b) =
        ucb_loop F h c lt actions xs (bs, b)"
      by (simp add: x)
    from Cons.IH [OF rest bs, of b] show ?thesis
    proof (elim disjE conjE exE)
      assume "\<forall>y\<in>set xs. ?L y \<longrightarrow> py_ge bs (?f y)"
        and "ucb_loop F h c lt actions xs (bs, b) = (bs, b)"
      with run False show ?thesis by simp
    next
      fix i
      assume "i < length xs" "?L (xs ! i)"
        "ucb_loop F h c lt actions xs (bs, b) = (?f (xs ! i), Some (xs ! i))"
        "py_gt (?f (xs ! i)) bs"
        "\<forall>j<length xs. ?L (xs ! j) \<longrightarrow> py_ge (?f (xs ! i)) (?f (xs ! j))"
        "\<forall>j<i. ?L (xs ! j) \<longrightarrow> py_gt (?f (xs ! i)) (?f (xs ! j))"
      with run False show ?thesis by (intro shift [of i]) simp_all
    qed
  next
    case True
    with Cons.prems(1) have px: "py_gt (?f x) NegInf" by simp
    then have nx: "?f x \<noteq> NaN" by (rule py_gt_not_NaN)
    show ?thesis
    proof (cases "py_gt (?f x) bs")
      case gtx: True
      then have run: "ucb_loop F h c lt actions (x # xs) (bs, b) =
          ucb_loop F h c lt actions xs (?f x, Some x)"
        using True by (simp add: x Let_def)
      from Cons.IH [OF rest nx, of "Some x"] show ?thesis
      proof (elim disjE conjE exE)
        assume all: "\<forall>y\<in>set xs. ?L y \<longrightarrow> py_ge (?f x) (?f y)"
          and eq: "ucb_loop F h c lt actions xs (?f x, Some x) = (?f x, Some x)"
        have "\<forall>j<length (x # xs). ?L ((x # xs) ! j) \<longrightarrow>
            py_ge (?f ((x # xs) ! 0)) (?f ((x # xs) ! j))"
        proof (intro allI impI)
          fix j assume "j < length (x # xs)" "?L ((x # xs) ! j)"
          then show "py_ge (?f ((x # xs) ! 0)) (?f ((x # xs) ! j))"
            using all nx by (cases j) (auto intro: py_ge_refl)
        qed
        with run eq gtx True show ?thesis
          by (intro disjI2 exI [of _ 0]) simp
      next
        fix i
        assume i: "i < length xs" "?L (xs ! i)"
          and eq: "ucb_loop F h c lt actions xs (?f x, Some x) = (?f (xs ! i), Some (xs ! i))"
          and gt: "py_gt (?f (xs ! i)) (?f x)"
          and all: "\<forall>j<length xs. ?L (xs ! j) \<longrightarrow> py_ge (?f (xs ! i)) (?f (xs ! j))"
          and first: "\<forall>j<i. ?L (xs ! j) \<longrightarrow> py_gt (?f (xs ! i)) (?f (xs ! j))"
        from gt gtx have "py_gt (?f (xs ! i)) bs" by (rule py_gt_trans)
        with i eq gt all first run show ?thesis by (intro shift [of i]) simp_all
      qed
    next
      case ngt: False
      then have run: "ucb_loop F h c lt actions (x # xs) (bs, b) =
          ucb_loop F h c lt actions xs (bs, b)"
        using True by (simp add: x Let_def)
      have le: "py_ge bs (?f x)" by (rule py_not_gt_ge [OF nx bs ngt])
      from Cons.IH [OF rest bs, of b] show ?thesis
      proof (elim disjE conjE exE)
        assume "\<forall>y\<in>set xs. ?L y \<longrightarrow> py_ge bs (?f y)"
          and "ucb_loop F h c lt actions xs (bs, b) = (bs, b)"
        with run le show ?thesis by simp
      next
        fix i
        assume i: "i < length xs" "?L (xs ! i)"
          and eq: "ucb_loop F h c lt actions xs (bs, b) = (?f (xs ! i), Some (xs ! i))"
          and gt: "py_gt (?f (xs ! i)) bs"
          and all: "\<forall>j<length xs. ?L (xs ! j) \<longrightarrow> py_ge (?f (xs ! i)) (?f (xs ! j))"
          and first: "\<forall>j<i. ?L (xs ! j) \<longrightarrow> py_gt (?f (xs ! i)) (?f (xs ! j))"
        from gt le have "py_gt (?f (xs ! i)) (?f x)" by (rule py_gt_ge_trans)
        with i eq gt all first run show ?thesis by (intro shift [of i]) simp_all
      qed
    qed
  qed
qed

lemma ucb_score_is_ucb1_spec:
  "ucb_score F c (log_total F N) nd = ucb1_spec F c N (visits nd) (results nd)"
  by (simp add: ucb_score_def ucb1_spec_def log_total_def Let_def)

lemma ucb1_spec_above_NegInf:
  assumes "0 < v \<longrightarrow> finite_float (ucb1_spec F c N v rs)"
  shows "py_gt (ucb1_spec F c N v rs) NegInf"
proof (cases "v = 0")
  case True
  then show ?thesis by (simp add: ucb1_spec_def)
next
  case False
  with assms have "finite_float (ucb1_spec F c N v rs)" by simp
  then show ?thesis by (simp add: py_gt_NegInf_iff)
qed

text \<open>
  What \<^verbatim>\<open>select\<close> does in its UCB1 branch, in terms of the specification's score
  with the total \<open>N\<close> that the code computes: it recurses into the first candidate
  whose score no candidate exceeds.
\<close>

lemma select_ucb1_general:
  assumes ne: "\<not> state_ended E st"
    and nx: "\<not> length (children (nodes h n)) < length (state_get_actions E st)"
    and ex: "\<exists>ac\<in>set (children (nodes h n)). fst ac \<in> set (state_get_actions E st)"
    and fin: "\<forall>ac\<in>set (children (nodes h n)).
        fst ac \<in> set (state_get_actions E st) \<longrightarrow> 0 < visits (nodes h (snd ac)) \<longrightarrow>
        finite_float (child_ucb1 F h n (total_visits h n) ac)"
  shows "\<exists>i<length (children (nodes h n)).
           fst (children (nodes h n) ! i) \<in> set (state_get_actions E st) \<and>
           select F E h n st g =
             (case state_step E st (fst (children (nodes h n) ! i)) g of
                (st1, g1) \<Rightarrow> select F E h (snd (children (nodes h n) ! i)) st1 g1) \<and>
           (\<forall>j<length (children (nodes h n)).
              fst (children (nodes h n) ! j) \<in> set (state_get_actions E st) \<longrightarrow>
              py_ge (child_ucb1 F h n (total_visits h n) (children (nodes h n) ! i))
                    (child_ucb1 F h n (total_visits h n) (children (nodes h n) ! j))) \<and>
           (\<forall>j<i.
              fst (children (nodes h n) ! j) \<in> set (state_get_actions E st) \<longrightarrow>
              py_gt (child_ucb1 F h n (total_visits h n) (children (nodes h n) ! i))
                    (child_ucb1 F h n (total_visits h n) (children (nodes h n) ! j)))"
proof -
  let ?cs = "children (nodes h n)"
  let ?acts = "state_get_actions E st"
  let ?c = "param (nodes h n)"
  let ?lt = "log_total F (total_visits h n)"
  let ?f = "\<lambda>ac. ucb_score F ?c ?lt (nodes h (snd ac))"
  let ?U = "child_ucb1 F h n (total_visits h n)"
  have fU: "?f ac = ?U ac" for ac
    by (simp add: child_ucb1_def ucb_score_is_ucb1_spec)
  have proper: "\<forall>ac\<in>set ?cs. fst ac \<in> set ?acts \<longrightarrow> py_gt (?f ac) NegInf"
  proof (intro ballI impI)
    fix ac assume "ac \<in> set ?cs" "fst ac \<in> set ?acts"
    with fin have "0 < visits (nodes h (snd ac)) \<longrightarrow> finite_float (?U ac)" by blast
    then show "py_gt (?f ac) NegInf"
      unfolding fU child_ucb1_def by (rule ucb1_spec_above_NegInf)
  qed
  from ex obtain x where x: "x \<in> set ?cs" "fst x \<in> set ?acts" by blast
  have "\<not> (\<forall>y\<in>set ?cs. fst y \<in> set ?acts \<longrightarrow> py_ge NegInf (?f y))"
  proof
    assume "\<forall>y\<in>set ?cs. fst y \<in> set ?acts \<longrightarrow> py_ge NegInf (?f y)"
    with x have "py_ge NegInf (?f x)" by blast
    moreover from proper x have "py_gt (?f x) NegInf" by blast
    ultimately show False by (blast dest: py_ge_not_gt)
  qed
  with ucb_loop_first_greatest [OF proper, of NegInf None]
  obtain i where i: "i < length ?cs" and li: "fst (?cs ! i) \<in> set ?acts"
    and loop: "ucb_loop F h ?c ?lt ?acts ?cs (NegInf, None) = (?f (?cs ! i), Some (?cs ! i))"
    and all: "\<forall>j<length ?cs. fst (?cs ! j) \<in> set ?acts \<longrightarrow> py_ge (?f (?cs ! i)) (?f (?cs ! j))"
    and first: "\<forall>j<i. fst (?cs ! j) \<in> set ?acts \<longrightarrow> py_gt (?f (?cs ! i)) (?f (?cs ! j))"
    by auto
  have pick: "ucb_pick F h n ?acts = Some (?cs ! i)"
    by (simp add: ucb_pick_def loop)
  have sel: "select F E h n st g =
      (case state_step E st (fst (?cs ! i)) g of
         (st1, g1) \<Rightarrow> select F E h (snd (?cs ! i)) st1 g1)"
    using ne nx pick by (subst select.simps) (simp add: case_prod_unfold)
  from i li sel all first show ?thesis
    unfolding fU by blast
qed

lemma stale_visits_all_legal:
  "\<forall>ac\<in>set (children (nodes h n)). fst ac \<in> set actions \<Longrightarrow> stale_visits h n actions = 0"
  by (simp add: stale_visits_def filter_False)

lemma sum_list_filter_split:
  "sum_list (map f xs) =
     sum_list (map f (filter P xs)) + sum_list (map f (filter (\<lambda>x. \<not> P x) xs))"
  for f :: "'b \<Rightarrow> nat"
  by (induction xs) auto

lemma total_visits_split:
  "total_visits h n = candidate_visits h n actions + stale_visits h n actions"
  unfolding total_visits_def candidate_visits_def stale_visits_def
  by (subst sum_list_filter_split [where P = "\<lambda>ac. fst ac \<in> set actions"])
     (simp add: case_prod_unfold)

text \<open>
  C5. When the state has not ended, expansion is not triggered, the node has children,
  the action of every child is legal and the score of every visited child is a finite
  float, \<^verbatim>\<open>select\<close> steps the state with the action of one child and recurses into
  that child: the first child in the order of the children list whose UCB1 score, as the
  specification words it (\<open>child_ucb1\<close> with the candidates' total), no child exceeds.
  In particular, when exactly one child has no visits, that child is taken.
\<close>

theorem select_ucb1_first_greatest:
  assumes "\<not> state_ended E st"
    and "\<not> length (children (nodes h n)) < length (state_get_actions E st)"
    and "children (nodes h n) \<noteq> []"
    and "\<forall>ac\<in>set (children (nodes h n)). fst ac \<in> set (state_get_actions E st)"
    and "\<forall>ac\<in>set (children (nodes h n)). 0 < visits (nodes h (snd ac)) \<longrightarrow>
           finite_float (child_ucb1 F h n (candidate_visits h n (state_get_actions E st)) ac)"
  shows "\<exists>i<length (children (nodes h n)).
           select F E h n st g =
             (case state_step E st (fst (children (nodes h n) ! i)) g of
                (st1, g1) \<Rightarrow> select F E h (snd (children (nodes h n) ! i)) st1 g1) \<and>
           (\<forall>j<length (children (nodes h n)).
              py_ge (child_ucb1 F h n (candidate_visits h n (state_get_actions E st))
                       (children (nodes h n) ! i))
                    (child_ucb1 F h n (candidate_visits h n (state_get_actions E st))
                       (children (nodes h n) ! j))) \<and>
           (\<forall>j<i.
              py_gt (child_ucb1 F h n (candidate_visits h n (state_get_actions E st))
                       (children (nodes h n) ! i))
                    (child_ucb1 F h n (candidate_visits h n (state_get_actions E st))
                       (children (nodes h n) ! j))) \<and>
           (\<forall>k<length (children (nodes h n)).
              visits (nodes h (snd (children (nodes h n) ! k))) = 0 \<and>
              (\<forall>j<length (children (nodes h n)).
                 j \<noteq> k \<longrightarrow> 0 < visits (nodes h (snd (children (nodes h n) ! j))))
              \<longrightarrow> i = k)"
proof -
  let ?cs = "children (nodes h n)"
  let ?acts = "state_get_actions E st"
  let ?U = "child_ucb1 F h n (candidate_visits h n ?acts)"
  have tv: "total_visits h n = candidate_visits h n ?acts"
    using total_visits_split [of h n ?acts] stale_visits_all_legal [OF assms(4)] by simp
  from assms(3) obtain x where "x \<in> set ?cs" by (cases ?cs) auto
  with assms(4) have ex: "\<exists>ac\<in>set ?cs. fst ac \<in> set ?acts" by blast
  have fin: "\<forall>ac\<in>set ?cs. fst ac \<in> set ?acts \<longrightarrow> 0 < visits (nodes h (snd ac)) \<longrightarrow>
        finite_float (child_ucb1 F h n (total_visits h n) ac)"
    using assms(5) by (simp add: tv)
  from select_ucb1_general [OF assms(1,2) ex fin, of g] assms(4)
  obtain i where i: "i < length ?cs"
    and sel: "select F E h n st g =
      (case state_step E st (fst (?cs ! i)) g of
         (st1, g1) \<Rightarrow> select F E h (snd (?cs ! i)) st1 g1)"
    and all: "\<forall>j<length ?cs. py_ge (?U (?cs ! i)) (?U (?cs ! j))"
    and first: "\<forall>j<i. py_gt (?U (?cs ! i)) (?U (?cs ! j))"
    unfolding tv by (auto simp: all_set_conv_all_nth)
  have only: "i = k"
    if k: "k < length ?cs" and v0: "visits (nodes h (snd (?cs ! k))) = 0"
      and others: "\<forall>j<length ?cs. j \<noteq> k \<longrightarrow> 0 < visits (nodes h (snd (?cs ! j)))" for k
  proof (rule ccontr)
    assume "i \<noteq> k"
    with others i have vi: "0 < visits (nodes h (snd (?cs ! i)))" by blast
    from i have "?cs ! i \<in> set ?cs" by simp
    with assms(5) vi have "finite_float (?U (?cs ! i))" by blast
    moreover have "?U (?cs ! k) = PosInf" using v0 by (simp add: child_ucb1_def ucb1_spec_def)
    moreover have "py_ge (?U (?cs ! i)) (?U (?cs ! k))" using all k by blast
    ultimately show False by (cases "?U (?cs ! i)") simp_all
  qed
  from i sel all first only show ?thesis by blast
qed

theorem select_ucb1_first_greatest_witness:
  "\<not> state_ended E0 Play \<and>
   \<not> length (children (nodes h_two 0)) < length (state_get_actions E0 Play) \<and>
   children (nodes h_two 0) = [(A, 1), (B, 2)] \<and>
   set (map fst (children (nodes h_two 0))) \<subseteq> set (state_get_actions E0 Play) \<and>
   visits (nodes h_two 1) = 1 \<and> visits (nodes h_two 2) = 0 \<and>
   child_ucb1 F0 h_two 0 (candidate_visits h_two 0 (state_get_actions E0 Play)) (A, 1) = Fin 1 \<and>
   select F0 E0 h_two 0 Play g0 = select F0 E0 h_two 2 Done g0 \<and>
   (\<exists>h'. select F0 E0 h_two 2 Done g0 = Some (Inr (h', 2, Done, g0)) \<and>
         visits (nodes h' 2) = 1 \<and> visits (nodes h' 1) = 1 \<and> visits (nodes h' 0) = 2)"
proof -
  have cs: "children (nodes h_two 0) = [(A, 1), (B, 2)]"
    by (simp add: h_two_def)
  have v: "visits (nodes h_two 1) = 1" "visits (nodes h_two 2) = 0"
    by (simp_all add: h_two_def leaf_def)
  have h1: "\<not> state_ended E0 Play" by (simp add: E0_def)
  have h2: "\<not> length (children (nodes h_two 0)) < length (state_get_actions E0 Play)"
    by (simp add: cs E0_def)
  have h3: "children (nodes h_two 0) \<noteq> []" by (simp add: cs)
  have h4: "\<forall>ac\<in>set (children (nodes h_two 0)). fst ac \<in> set (state_get_actions E0 Play)"
    by (simp add: cs E0_def)
  have uA: "child_ucb1 F0 h_two 0 (candidate_visits h_two 0 (state_get_actions E0 Play)) (A, 1)
      = Fin 1"
    by (simp add: child_ucb1_def ucb1_spec_def candidate_visits_def h_two_def leaf_def E0_def
        F0_def)
  have h5: "\<forall>ac\<in>set (children (nodes h_two 0)). 0 < visits (nodes h_two (snd ac)) \<longrightarrow>
      finite_float
        (child_ucb1 F0 h_two 0 (candidate_visits h_two 0 (state_get_actions E0 Play)) ac)"
    by (simp add: child_ucb1_def ucb1_spec_def candidate_visits_def h_two_def leaf_def E0_def
        F0_def)
  from select_ucb1_first_greatest [OF h1 h2 h3 h4 h5, of g0] obtain i where
    i: "i < length (children (nodes h_two 0))"
    and sel: "select F0 E0 h_two 0 Play g0 =
             (case state_step E0 Play (fst (children (nodes h_two 0) ! i)) g0 of
                (st1, g1) \<Rightarrow> select F0 E0 h_two (snd (children (nodes h_two 0) ! i)) st1 g1)"
    and only: "\<forall>k<length (children (nodes h_two 0)).
              visits (nodes h_two (snd (children (nodes h_two 0) ! k))) = 0 \<and>
              (\<forall>j<length (children (nodes h_two 0)).
                 j \<noteq> k \<longrightarrow> 0 < visits (nodes h_two (snd (children (nodes h_two 0) ! j))))
              \<longrightarrow> i = k"
    by blast
  have "visits (nodes h_two (snd (children (nodes h_two 0) ! 1))) = 0 \<and>
        (\<forall>j<length (children (nodes h_two 0)).
           j \<noteq> 1 \<longrightarrow> 0 < visits (nodes h_two (snd (children (nodes h_two 0) ! j))))"
    by (simp add: cs less_Suc_eq) (simp add: h_two_def leaf_def)
  with only have "i = 1" by (simp add: cs)
  with sel have s: "select F0 E0 h_two 0 Play g0 = select F0 E0 h_two 2 Done g0"
    by (simp add: cs E0_def)
  have r: "\<exists>h'. select F0 E0 h_two 2 Done g0 = Some (Inr (h', 2, Done, g0)) \<and>
         visits (nodes h' 2) = 1 \<and> visits (nodes h' 1) = 1 \<and> visits (nodes h' 0) = 2"
    by (subst select.simps)
       (simp add: E0_def score_def backpropagate.simps h_two_def leaf_def record_result_def)
  have "set (map fst (children (nodes h_two 0))) \<subseteq> set (state_get_actions E0 Play)"
    using h4 by auto
  with h1 h2 cs v uA s r show ?thesis by blast
qed

section \<open>The total in the UCB1 rule\<close>

text \<open>
  C2, as the claim states it, fails: in the store \<open>h_stale\<close> the root has a stale child
  for \<open>X\<close> with one visit and a candidate child for \<open>A\<close> with one visit. The total that
  \<^verbatim>\<open>select\<close> computes is 2 and the sum over the candidates is 1. The score that the
  loop of \<^verbatim>\<open>select\<close> gives the candidate is the one with the logarithm of 2 (above 1),
  not the specification's score with the candidates' total (exactly 1, the logarithm of
  1 being 0).
\<close>

theorem ucb_total_candidates_only_counterexample:
  "total_visits h_stale 0 = 2 \<and> candidate_visits h_stale 0 (state_get_actions E0 Play) = 1 \<and>
   ucb_score F0 (param (nodes h_stale 0)) (log_total F0 (total_visits h_stale 0)) (nodes h_stale 2)
     = Fin (1 + sqrt (ln 2) / 2) \<and>
   child_ucb1 F0 h_stale 0 (candidate_visits h_stale 0 (state_get_actions E0 Play)) (A, 2)
     = Fin 1 \<and>
   Fin (1 + sqrt (ln 2) / 2) \<noteq> Fin 1"
  by (simp add: total_visits_def candidate_visits_def h_stale_def leaf_def E0_def
      ucb_score_def log_total_def child_ucb1_def ucb1_spec_def F0_def)

text \<open>
  C2, amended. The total \<open>N\<close> under the logarithm is the sum of the visit counts over
  all children of the node: the visits of the candidate children plus the visits of the
  stale children. When the state has not ended, expansion is not triggered, some child
  is a candidate and the score of every visited candidate is a finite float,
  \<^verbatim>\<open>select\<close> recurses into the first candidate whose UCB1 score with this \<open>N\<close> no
  candidate exceeds.
\<close>

theorem ucb_total_counts_all_children:
  assumes "\<not> state_ended E st"
    and "\<not> length (children (nodes h n)) < length (state_get_actions E st)"
    and "\<exists>ac\<in>set (children (nodes h n)). fst ac \<in> set (state_get_actions E st)"
    and "\<forall>ac\<in>set (children (nodes h n)).
           fst ac \<in> set (state_get_actions E st) \<longrightarrow> 0 < visits (nodes h (snd ac)) \<longrightarrow>
           finite_float
             (child_ucb1 F h n
                (candidate_visits h n (state_get_actions E st) +
                 stale_visits h n (state_get_actions E st)) ac)"
  shows "total_visits h n =
           candidate_visits h n (state_get_actions E st) +
           stale_visits h n (state_get_actions E st) \<and>
         (\<exists>i<length (children (nodes h n)).
            fst (children (nodes h n) ! i) \<in> set (state_get_actions E st) \<and>
            select F E h n st g =
              (case state_step E st (fst (children (nodes h n) ! i)) g of
                 (st1, g1) \<Rightarrow> select F E h (snd (children (nodes h n) ! i)) st1 g1) \<and>
            (\<forall>j<length (children (nodes h n)).
               fst (children (nodes h n) ! j) \<in> set (state_get_actions E st) \<longrightarrow>
               py_ge (child_ucb1 F h n
                        (candidate_visits h n (state_get_actions E st) +
                         stale_visits h n (state_get_actions E st))
                        (children (nodes h n) ! i))
                     (child_ucb1 F h n
                        (candidate_visits h n (state_get_actions E st) +
                         stale_visits h n (state_get_actions E st))
                        (children (nodes h n) ! j))) \<and>
            (\<forall>j<i.
               fst (children (nodes h n) ! j) \<in> set (state_get_actions E st) \<longrightarrow>
               py_gt (child_ucb1 F h n
                        (candidate_visits h n (state_get_actions E st) +
                         stale_visits h n (state_get_actions E st))
                        (children (nodes h n) ! i))
                     (child_ucb1 F h n
                        (candidate_visits h n (state_get_actions E st) +
                         stale_visits h n (state_get_actions E st))
                        (children (nodes h n) ! j))))"
proof -
  have tv: "total_visits h n =
      candidate_visits h n (state_get_actions E st) + stale_visits h n (state_get_actions E st)"
    by (rule total_visits_split)
  from select_ucb1_general [OF assms(1,2,3), of F g] assms(4) tv show ?thesis
    by simp
qed

theorem ucb_total_counts_all_children_witness:
  "\<not> state_ended E0 Play \<and>
   \<not> length (children (nodes h_stale 0)) < length (state_get_actions E0 Play) \<and>
   children (nodes h_stale 0) = [(X, 1), (A, 2)] \<and>
   state_get_actions E0 Play = [A, B] \<and>
   candidate_visits h_stale 0 (state_get_actions E0 Play) = 1 \<and>
   stale_visits h_stale 0 (state_get_actions E0 Play) = 1 \<and>
   child_ucb1 F0 h_stale 0 2 (A, 2) = Fin (1 + sqrt (ln 2) / 2) \<and>
   select F0 E0 h_stale 0 Play g0 = select F0 E0 h_stale 2 Done g0"
proof -
  have cs: "children (nodes h_stale 0) = [(X, 1), (A, 2)]" by (simp add: h_stale_def)
  have acts: "state_get_actions E0 Play = [A, B]" by (simp add: E0_def)
  have h1: "\<not> state_ended E0 Play" by (simp add: E0_def)
  have h2: "\<not> length (children (nodes h_stale 0)) < length (state_get_actions E0 Play)"
    by (simp add: cs acts)
  have h3: "\<exists>ac\<in>set (children (nodes h_stale 0)). fst ac \<in> set (state_get_actions E0 Play)"
    by (simp add: cs acts)
  have cv: "candidate_visits h_stale 0 (state_get_actions E0 Play) = 1"
    and sv: "stale_visits h_stale 0 (state_get_actions E0 Play) = 1"
    by (simp_all add: candidate_visits_def stale_visits_def h_stale_def leaf_def E0_def)
  have uA: "child_ucb1 F0 h_stale 0 2 (A, 2) = Fin (1 + sqrt (ln 2) / 2)"
    by (simp add: child_ucb1_def ucb1_spec_def h_stale_def leaf_def F0_def)
  have h4: "\<forall>ac\<in>set (children (nodes h_stale 0)).
           fst ac \<in> set (state_get_actions E0 Play) \<longrightarrow> 0 < visits (nodes h_stale (snd ac)) \<longrightarrow>
           finite_float
             (child_ucb1 F0 h_stale 0
                (candidate_visits h_stale 0 (state_get_actions E0 Play) +
                 stale_visits h_stale 0 (state_get_actions E0 Play)) ac)"
    unfolding cv sv by (simp add: cs acts child_ucb1_def ucb1_spec_def h_stale_def leaf_def F0_def)
  from ucb_total_counts_all_children [OF h1 h2 h3 h4, of g0] obtain i where
    i: "i < length (children (nodes h_stale 0))"
    and li: "fst (children (nodes h_stale 0) ! i) \<in> set (state_get_actions E0 Play)"
    and sel: "select F0 E0 h_stale 0 Play g0 =
              (case state_step E0 Play (fst (children (nodes h_stale 0) ! i)) g0 of
                 (st1, g1) \<Rightarrow> select F0 E0 h_stale (snd (children (nodes h_stale 0) ! i)) st1 g1)"
    by blast
  from i have "i = 0 \<or> i = 1" by (auto simp: cs)
  moreover have "i \<noteq> 0"
  proof
    assume "i = 0"
    with li show False by (simp add: cs acts)
  qed
  ultimately have "i = 1" by blast
  with sel have "select F0 E0 h_stale 0 Play g0 = select F0 E0 h_stale 2 Done g0"
    by (simp add: cs E0_def)
  with h1 h2 cs acts cv sv uA show ?thesis by blast
qed


section \<open>The fallback of select\<close>

lemma ucb_loop_none_legal:
  "\<forall>ac\<in>set cs. fst ac \<notin> set actions \<Longrightarrow> ucb_loop F h c lt actions cs best = best"
proof (induction cs)
  case Nil
  show ?case by simp
next
  case (Cons x xs)
  then show ?case by (cases x; cases best) simp
qed

lemma find_none_legal:
  assumes "\<forall>ac\<in>set cs. fst ac \<notin> set actions" and "a \<in> set actions"
  shows "find (\<lambda>(x, _). x = a) cs = None"
  using assms by (auto simp: find_None_iff)

text \<open>
  C8. When the state has not ended, expansion is not triggered and no child's action is
  legal, \<^verbatim>\<open>select\<close> raises nothing before it recurses: \<^verbatim>\<open>random.choice\<close> returns a
  legal action (the state offers at least one action, as the environment promises for
  a state that has not ended), the child for that action is the first existing child
  with that action if there is one and a TreeNode constructed and appended to the
  children otherwise, and \<^verbatim>\<open>select\<close> continues in that child on the stepped state.
  Under these conditions no existing child matches, so the child is always a new one.
\<close>

theorem select_fallback:
  assumes "\<not> state_ended E st"
    and "\<not> length (children (nodes h n)) < length (state_get_actions E st)"
    and "\<forall>ac\<in>set (children (nodes h n)). fst ac \<notin> set (state_get_actions E st)"
    and "state_get_actions E st \<noteq> []"
  shows "\<exists>a g1. choice g (state_get_actions E st) = Inr (a, g1) \<and>
           a \<in> set (state_get_actions E st) \<and>
           select F E h n st g =
             (case find (\<lambda>(x, _). x = a) (children (nodes h n)) of
                Some (_, c) \<Rightarrow>
                  (case state_step E st a g1 of (st1, g2) \<Rightarrow> select F E h c st1 g2)
              | None \<Rightarrow>
                  (case new_TreeNode h (param (nodes h n)) (Some n) of (c, h1) \<Rightarrow>
                     (case state_step E st a g1 of (st1, g2) \<Rightarrow>
                        select F E (append_child h1 n a c) c st1 g2))) \<and>
           find (\<lambda>(x, _). x = a) (children (nodes h n)) = None"
proof -
  from choice_Inr [OF assms(4), of g] obtain a g1 where
    c: "choice g (state_get_actions E st) = Inr (a, g1)"
    and a: "a \<in> set (state_get_actions E st)" by blast
  have pick: "ucb_pick F h n (state_get_actions E st) = None"
    by (simp add: ucb_pick_def ucb_loop_none_legal [OF assms(3)])
  have "select F E h n st g =
             (case find (\<lambda>(x, _). x = a) (children (nodes h n)) of
                Some (_, c) \<Rightarrow>
                  (case state_step E st a g1 of (st1, g2) \<Rightarrow> select F E h c st1 g2)
              | None \<Rightarrow>
                  (case new_TreeNode h (param (nodes h n)) (Some n) of (c, h1) \<Rightarrow>
                     (case state_step E st a g1 of (st1, g2) \<Rightarrow>
                        select F E (append_child h1 n a c) c st1 g2)))"
    using assms(1,2) pick c by (subst select.simps) simp
  with c a find_none_legal [OF assms(3) a] show ?thesis by blast
qed

theorem select_fallback_witness:
  "\<not> state_ended E0 Forced \<and>
   \<not> length (children (nodes h_one_stale 0)) < length (state_get_actions E0 Forced) \<and>
   set (map fst (children (nodes h_one_stale 0))) \<inter> set (state_get_actions E0 Forced) = {} \<and>
   state_get_actions E0 Forced \<noteq> [] \<and>
   (\<exists>h'. select F0 E0 h_one_stale 0 Forced g0 = Some (Inr (h', 2, Done, g0)) \<and>
         children (nodes h' 0) = [(X, 1), (A, 2)] \<and> parent (nodes h' 2) = Some 0 \<and>
         visits (nodes h' 2) = 1 \<and> visits (nodes h' 0) = 2 \<and> fresh h' = 3)"
proof -
  have h1: "\<not> state_ended E0 Forced" by (simp add: E0_def)
  have h2: "\<not> length (children (nodes h_one_stale 0)) < length (state_get_actions E0 Forced)"
    by (simp add: h_one_stale_def E0_def)
  have h3: "\<forall>ac\<in>set (children (nodes h_one_stale 0)). fst ac \<notin> set (state_get_actions E0 Forced)"
    by (simp add: h_one_stale_def E0_def)
  have h4: "state_get_actions E0 Forced \<noteq> []" by (simp add: E0_def)
  have ch: "choice g0 (state_get_actions E0 Forced) = Inr (A, g0)"
    by (simp add: choice_def E0_def g0_def)
  from select_fallback [OF h1 h2 h3 h4, where g = g0 and F = F0] ch
  have "select F0 E0 h_one_stale 0 Forced g0 =
          (case new_TreeNode h_one_stale (param (nodes h_one_stale 0)) (Some 0) of (c, h1) \<Rightarrow>
             (case state_step E0 Forced A g0 of (st1, g2) \<Rightarrow>
                select F0 E0 (append_child h1 0 A c) c st1 g2))"
    by auto
  also have "\<dots> = select F0 E0 (append_child (snd (new_TreeNode h_one_stale (Fin (1/2)) (Some 0))) 0 A 2) 2 Done g0"
    by (simp add: new_TreeNode_def h_one_stale_def E0_def)
  finally have "\<exists>h'. select F0 E0 h_one_stale 0 Forced g0 = Some (Inr (h', 2, Done, g0)) \<and>
         children (nodes h' 0) = [(X, 1), (A, 2)] \<and> parent (nodes h' 2) = Some 0 \<and>
         visits (nodes h' 2) = 1 \<and> visits (nodes h' 0) = 2 \<and> fresh h' = 3"
    by (subst (asm) select.simps)
       (simp add: E0_def score_def backpropagate.simps h_one_stale_def leaf_def
          record_result_def new_TreeNode_def append_child_def TreeNode_init_def)
  moreover have
    "set (map fst (children (nodes h_one_stale 0))) \<inter> set (state_get_actions E0 Forced) = {}"
    using h3 by auto
  ultimately show ?thesis using h1 h2 h4 by blast
qed


section \<open>The test that triggers expansion\<close>

text \<open>
  The store \<open>h_stale\<close> is what two iterations of the driver's loop build from a fresh
  root in the environment \<open>E1\<close>, when both sampled copies are \<open>PlayX\<close>.
\<close>

lemma h_stale_reached:
  "iterate F0 E1 2 h_root 0 Play g_mixed = Some (Inr (h_stale, (\<lambda>i. g_mixed (i + 4))))"
  apply (simp add: numeral_2_eq_2 E1_def E0_def g_mixed_def h_root_def new_TreeNode_def
      heap_empty_def step_def select.simps expand_def unexplored_def choice_def
      TreeNode_init_def append_child_def rollout.simps score_def backpropagate.simps
      record_result_def h_stale_def leaf_def)
  apply (simp add: fun_eq_iff)
  done

text \<open>
  C1 at the store \<open>h_stale\<close> and the state \<open>Play\<close>, which the third iteration samples
  after the two that built \<open>h_stale\<close>: the legal action \<open>B\<close> has no child under the
  root, yet the root has as many children as the state has legal actions (one of them
  stale), so \<^verbatim>\<open>select\<close> does not call \<^verbatim>\<open>expand\<close>. It descends into the child for
  \<open>A\<close> and constructs no TreeNode, where \<^verbatim>\<open>expand\<close> would have appended a child for
  \<open>B\<close>.
\<close>

theorem select_skips_expand_despite_missing_child:
  "iterate F0 E1 2 h_root 0 Play g_mixed = Some (Inr (h_stale, (\<lambda>i. g_mixed (i + 4)))) \<and>
   copy_undeterministic E1 Play (\<lambda>i. g_mixed (i + 4)) = (Play, g0) \<and>
   \<not> state_ended E1 Play \<and>
   B \<in> set (state_get_actions E1 Play) \<and>
   B \<notin> fst ` set (children (nodes h_stale 0)) \<and>
   (\<exists>h'. select F0 E1 h_stale 0 Play g0 = Some (Inr (h', 2, Done, g0)) \<and>
         fresh h' = fresh h_stale \<and>
         children (nodes h' 0) = children (nodes h_stale 0)) \<and>
   (\<exists>h'. expand E1 h_stale 0 Play (state_get_actions E1 Play) g0 = Some (Inr (h', 3, Done, g0)) \<and>
         fresh h' = Suc (fresh h_stale) \<and>
         children (nodes h' 0) = children (nodes h_stale 0) @ [(B, 3)]) \<and>
   select F0 E1 h_stale 0 Play g0 \<noteq> expand E1 h_stale 0 Play (state_get_actions E1 Play) g0"
proof -
  have c: "copy_undeterministic E1 Play (\<lambda>i. g_mixed (i + 4)) = (Play, g0)"
    by (simp add: E1_def g_mixed_def g0_def)
  have s: "\<exists>h'. select F0 E1 h_stale 0 Play g0 = Some (Inr (h', 2, Done, g0)) \<and>
         fresh h' = fresh h_stale \<and>
         children (nodes h' 0) = children (nodes h_stale 0)"
    apply (subst select.simps)
    apply (simp add: E1_def E0_def h_stale_def leaf_def ucb_pick_def F0_def total_visits_def
        ucb_score_def log_total_def)
    apply (subst select.simps)
    apply (simp add: score_def backpropagate.simps record_result_def)
    done
  have e: "\<exists>h'. expand E1 h_stale 0 Play (state_get_actions E1 Play) g0 =
           Some (Inr (h', 3, Done, g0)) \<and>
         fresh h' = Suc (fresh h_stale) \<and>
         children (nodes h' 0) = children (nodes h_stale 0) @ [(B, 3)]"
    by (simp add: expand_def E1_def E0_def h_stale_def leaf_def unexplored_def choice_def
        g0_def new_TreeNode_def append_child_def TreeNode_init_def rollout.simps score_def
        backpropagate.simps record_result_def)
  from s e have "select F0 E1 h_stale 0 Play g0 \<noteq>
      expand E1 h_stale 0 Play (state_get_actions E1 Play) g0"
    by auto
  with s e c h_stale_reached show ?thesis by (simp add: E1_def E0_def h_stale_def)
qed


section \<open>Visit counts and results\<close>

lemma consistent_record:
  "consistent h \<Longrightarrow> consistent (h\<lparr>nodes := (nodes h)(n := record_result r (nodes h n))\<rparr>)"
  by (simp add: consistent_def record_result_def)

lemma consistent_new_TreeNode:
  "consistent h \<Longrightarrow> new_TreeNode h p par = (c, h1) \<Longrightarrow> consistent h1"
  by (auto simp: consistent_def new_TreeNode_def TreeNode_init_def less_Suc_eq)

lemma consistent_append_child:
  "consistent h \<Longrightarrow> consistent (append_child h n a c)"
  by (simp add: consistent_def append_child_def)

lemma backpropagate_consistent:
  "backpropagate h n r = Some h' \<Longrightarrow> consistent h \<Longrightarrow> consistent h'"
proof (induction rule: backpropagate.raw_induct [rotated 1, consumes 1])
  case (1 bp h n r h')
  let ?h1 = "h\<lparr>nodes := (nodes h)(n := record_result r (nodes h n))\<rparr>"
  have c1: "consistent ?h1" using "1.prems" by (rule consistent_record)
  show ?case
  proof (cases "parent (nodes ?h1 n)")
    case None
    with "1.hyps" have "h' = ?h1" by (simp add: Let_def)
    with c1 show ?thesis by simp
  next
    case (Some p)
    with "1.hyps" have "bp ?h1 p r = Some h'" by (simp add: Let_def)
    from "1.IH" [OF this c1] show ?thesis .
  qed
qed

lemma expand_consistent:
  assumes "expand E h n st available g = Some (Inr (h', res))" and "consistent h"
  shows "consistent h'"
proof -
  from assms(1) obtain action g1 child h1 st1 g2 reward st2 g3 where
    new: "new_TreeNode h (param (nodes h n)) (Some n) = (child, h1)"
    and bp: "backpropagate (append_child h1 n action child) child reward = Some h'"
    by (auto simp: expand_def Let_def split: sum.splits prod.splits option.splits)
  from consistent_new_TreeNode [OF assms(2) new]
  have "consistent (append_child h1 n action child)" by (rule consistent_append_child)
  with bp show ?thesis by (rule backpropagate_consistent)
qed

lemma select_consistent:
  "select F E h n st g = Some y \<Longrightarrow> consistent h \<Longrightarrow> y = Inr (h', res) \<Longrightarrow> consistent h'"
proof (induction arbitrary: h' res rule: select.raw_induct [rotated 1, consumes 1])
  case (1 sel F E h n st g y)
  note body = "1.hyps"
  show ?case
  proof (cases "state_ended E st")
    case True
    with body "1.prems" show ?thesis
      by (auto split: option.splits dest: backpropagate_consistent)
  next
    case False
    note ne = this
    show ?thesis
    proof (cases "length (children (nodes h n)) < length (state_get_actions E st)")
      case True
      with ne body "1.prems" show ?thesis
        by (auto simp: Let_def dest: expand_consistent)
    next
      case False
      note nx = this
      show ?thesis
      proof (cases "ucb_pick F h n (state_get_actions E st)")
        case (Some ac)
        with ne nx body obtain st1 g1 where "sel F E h (snd ac) st1 g1 = Some y"
          by (auto simp: Let_def split: prod.splits)
        from "1.IH" [OF this "1.prems"] show ?thesis .
      next
        case None
        with ne nx body "1.prems"(2) obtain a g1 where
          ch: "choice g (state_get_actions E st) = Inr (a, g1)"
          by (auto simp: Let_def split: sum.splits)
        show ?thesis
        proof (cases "find (\<lambda>(x, _). x = a) (children (nodes h n))")
          case (Some xc)
          with None ch ne nx body obtain st1 g2 where "sel F E h (snd xc) st1 g2 = Some y"
            by (auto simp: Let_def split: prod.splits)
          from "1.IH" [OF this "1.prems"] show ?thesis .
        next
          case fn: None
          obtain c h1 where new: "new_TreeNode h (param (nodes h n)) (Some n) = (c, h1)"
            by (cases "new_TreeNode h (param (nodes h n)) (Some n)")
          with fn None ch ne nx body obtain st1 g2 where
            r: "sel F E (append_child h1 n a c) c st1 g2 = Some y"
            by (auto simp: Let_def split: prod.splits)
          have "consistent (append_child h1 n a c)"
            using consistent_new_TreeNode [OF "1.prems"(1) new] by (rule consistent_append_child)
          from "1.IH" [OF r this "1.prems"(2)] show ?thesis .
        qed
      qed
    qed
  qed
qed

lemma step_consistent:
  "step F E h n st g = Some (Inr (h', sres)) \<Longrightarrow> consistent h \<Longrightarrow> consistent h'"
  by (auto simp: step_def split: option.splits sum.splits prod.splits dest: select_consistent)

lemma iterate_consistent:
  "iterate F E k h t bs g = Some (Inr (h', g')) \<Longrightarrow> consistent h \<Longrightarrow> consistent h'"
proof (induction k arbitrary: h g)
  case 0
  then show ?case by simp
next
  case (Suc k)
  obtain sample g1 where cp: "copy_undeterministic E bs g = (sample, g1)"
    by (cases "copy_undeterministic E bs g")
  with Suc.prems(1) obtain h1 st1 g2 where
    s: "step F E h t sample g1 = Some (Inr (h1, st1, g2))"
    and it: "iterate F E k h1 t bs g2 = Some (Inr (h', g'))"
    by (auto split: option.splits sum.splits prod.splits)
  from step_consistent [OF s Suc.prems(2)] have "consistent h1" .
  from Suc.IH [OF it this] show ?case .
qed

lemma consistent_heap_empty: "consistent heap_empty"
  by (simp add: consistent_def heap_empty_def)

lemma choose_card_consistent:
  assumes "choose_card F E iterations p bs g = Some (Inr (x, h', g'))"
  shows "consistent h'"
proof (cases "length (state_get_actions E bs) = 1")
  case True
  with assms show ?thesis by (simp add: choose_card_def consistent_heap_empty)
next
  case False
  obtain t h0 where new: "new_TreeNode heap_empty p None = (t, h0 :: 'b heap)"
    by (cases "new_TreeNode (heap_empty :: 'b heap) p None")
  with False assms obtain g1 where
    "iterate F E (nat iterations) h0 t bs g = Some (Inr (h', g1))"
    by (auto simp: choose_card_def Let_def split: option.splits sum.splits prod.splits)
  moreover have "consistent h0"
    using consistent_heap_empty new by (rule consistent_new_TreeNode)
  ultimately show ?thesis by (rule iterate_consistent)
qed

lemma consistent_h_two: "consistent h_two"
  by (auto simp: consistent_def h_two_def leaf_def less_Suc_eq numeral_3_eq_3)

lemma select_h_two_run:
  "select F0 E0 h_two 0 Play g0 =
     Some (Inr (h_two\<lparr>nodes := (nodes h_two)
                 (2 := record_result (Fin 1) (nodes h_two 2), 0 := record_result (Fin 1) (nodes h_two 0))\<rparr>,
                2, Done, g0))"
  apply (subst select.simps)
  apply (simp add: E0_def ucb_pick_def F0_def total_visits_def ucb_score_def log_total_def h_two_def leaf_def)
  apply (subst select.simps)
  apply (simp add: score_def backpropagate.simps)
  done

lemma choose_card_run:
  "\<exists>h'. choose_card F0 E0 2 (Fin (1/2)) Play g0 = Some (Inr (A, h', g0)) \<and>
     children (nodes h' 0) = [(A, 1), (B, 2)] \<and> visits (nodes h' 0) = 2"
  by (simp add: choose_card_def E0_def new_TreeNode_def heap_empty_def numeral_2_eq_2 step_def
      select.simps expand_def unexplored_def choice_def g0_def
      TreeNode_init_def append_child_def rollout.simps score_def backpropagate.simps
      record_result_def get_best_def avg_key_def F0_def)

text \<open>
  C3. The visit count of every TreeNode constructed so far equals the length of its
  results list (\<open>consistent\<close>). A freshly constructed TreeNode has count 0 and no
  results, and every operation that changes the store hands back a consistent store
  when it was given one: constructing a TreeNode, \<^verbatim>\<open>backpropagate\<close> (whose two
  assignments are one update of the node), \<^verbatim>\<open>expand\<close>, \<^verbatim>\<open>select\<close>, \<^verbatim>\<open>step\<close>, the
  loop of iterations, and \<^verbatim>\<open>choose_card\<close> as a whole. \<^verbatim>\<open>rollout\<close>, \<^verbatim>\<open>get_best\<close> and
  \<^verbatim>\<open>print_tree\<close> do not write to any TreeNode.
\<close>

theorem visits_equal_results_length:
  "visits (TreeNode_init p par) = length (results (TreeNode_init p par)) \<and>
   (consistent h \<longrightarrow> consistent (snd (new_TreeNode h p par))) \<and>
   (consistent h \<longrightarrow> backpropagate h n r = Some h' \<longrightarrow> consistent h') \<and>
   (consistent h \<longrightarrow> expand E h n st available g = Some (Inr (h', res)) \<longrightarrow> consistent h') \<and>
   (consistent h \<longrightarrow> select F E h n st g = Some (Inr (h', res)) \<longrightarrow> consistent h') \<and>
   (consistent h \<longrightarrow> step F E h n st g = Some (Inr (h', sres)) \<longrightarrow> consistent h') \<and>
   (consistent h \<longrightarrow> iterate F E k h n st g = Some (Inr (h', g')) \<longrightarrow> consistent h') \<and>
   (choose_card F E iterations p st g = Some (Inr (x, h', g')) \<longrightarrow> consistent h')"
proof (intro conjI impI)
  show "visits (TreeNode_init p par) = length (results (TreeNode_init p par))"
    by (simp add: TreeNode_init_def)
  show "consistent (snd (new_TreeNode h p par))" if "consistent h"
    using that consistent_new_TreeNode [of h p par] by (cases "new_TreeNode h p par") simp
  show "consistent h'" if "consistent h" "backpropagate h n r = Some h'"
    using that(2,1) by (rule backpropagate_consistent)
  show "consistent h'" if "consistent h" "expand E h n st available g = Some (Inr (h', res))"
    using that(2,1) by (rule expand_consistent)
  show "consistent h'" if "consistent h" "select F E h n st g = Some (Inr (h', res))"
    using that(2,1) by (rule select_consistent) simp
  show "consistent h'" if "consistent h" "step F E h n st g = Some (Inr (h', sres))"
    using that(2,1) by (rule step_consistent)
  show "consistent h'" if "consistent h" "iterate F E k h n st g = Some (Inr (h', g'))"
    using that(2,1) by (rule iterate_consistent)
  show "consistent h'" if "choose_card F E iterations p st g = Some (Inr (x, h', g'))"
    using that by (rule choose_card_consistent)
qed

theorem visits_equal_results_length_witness:
  "consistent h_two \<and>
   (\<exists>h'. select F0 E0 h_two 0 Play g0 = Some (Inr (h', 2, Done, g0)) \<and> consistent h' \<and>
      visits (nodes h' 0) = 2 \<and> results (nodes h' 0) = [Fin 1, Fin 1]) \<and>
   (\<exists>h'. choose_card F0 E0 2 (Fin (1/2)) Play g0 = Some (Inr (A, h', g0)) \<and> consistent h' \<and>
      visits (nodes h' 0) = 2)"
proof -
  have c: "consistent h_two" by (rule consistent_h_two)
  let ?h = "h_two\<lparr>nodes := (nodes h_two)
                 (2 := record_result (Fin 1) (nodes h_two 2), 0 := record_result (Fin 1) (nodes h_two 0))\<rparr>"
  have run: "select F0 E0 h_two 0 Play g0 = Some (Inr (?h, 2, Done, g0))"
    by (rule select_h_two_run)
  from visits_equal_results_length
    [where h = h_two and h' = ?h and E = E0 and n = 0 and st = Play and g = g0
       and res = "(2, Done, g0)" and F = F0] c run
  have "consistent ?h" by blast
  moreover have "visits (nodes ?h 0) = 2 \<and> results (nodes ?h 0) = [Fin 1, Fin 1]"
    by (simp add: record_result_def h_two_def)
  ultimately have s: "\<exists>h'. select F0 E0 h_two 0 Play g0 = Some (Inr (h', 2, Done, g0)) \<and>
      consistent h' \<and> visits (nodes h' 0) = 2 \<and> results (nodes h' 0) = [Fin 1, Fin 1]"
    using run by blast
  from choose_card_run obtain h' where
    cc: "choose_card F0 E0 2 (Fin (1/2)) Play g0 = Some (Inr (A, h', g0))"
    and v: "visits (nodes h' 0) = 2" by blast
  from visits_equal_results_length
    [where h' = h' and E = E0 and iterations = 2 and p = "Fin (1/2)" and F = F0 and st = Play and g = g0
       and x = A and g' = g0] cc
  have "consistent h'" by blast
  with cc v c s show ?thesis by blast
qed


section \<open>One child per action\<close>

lemma extends_refl: "extends h h"
  by (simp add: extends_def)

lemma extends_trans: "extends h1 h2 \<Longrightarrow> extends h2 h3 \<Longrightarrow> extends h1 h3"
  unfolding extends_def
proof (intro conjI allI impI)
  assume a: "fresh h1 \<le> fresh h2 \<and> (\<forall>a<fresh h1. \<exists>ys. children (nodes h2 a) = children (nodes h1 a) @ ys)"
    and b: "fresh h2 \<le> fresh h3 \<and> (\<forall>a<fresh h2. \<exists>ys. children (nodes h3 a) = children (nodes h2 a) @ ys)"
  show "fresh h1 \<le> fresh h3" using a b by simp
  fix x assume x: "x < fresh h1"
  with a obtain ys where ys: "children (nodes h2 x) = children (nodes h1 x) @ ys" by blast
  from x a have "x < fresh h2" by simp
  with b obtain zs where "children (nodes h3 x) = children (nodes h2 x) @ zs" by blast
  with ys show "\<exists>ys. children (nodes h3 x) = children (nodes h1 x) @ ys" by simp
qed

lemma backpropagate_children:
  "backpropagate h n r = Some h' \<Longrightarrow>
     fresh h' = fresh h \<and> (\<forall>a. children (nodes h' a) = children (nodes h a))"
proof (induction rule: backpropagate.raw_induct [rotated 1, consumes 1])
  case (1 bp h n r h')
  let ?h1 = "h\<lparr>nodes := (nodes h)(n := record_result r (nodes h n))\<rparr>"
  have c1: "fresh ?h1 = fresh h \<and> (\<forall>a. children (nodes ?h1 a) = children (nodes h a))"
    by (simp add: record_result_def)
  show ?case
  proof (cases "parent (nodes ?h1 n)")
    case None
    with "1.hyps" have "h' = ?h1" by (simp add: Let_def)
    with c1 show ?thesis by simp
  next
    case (Some p)
    with "1.hyps" have "bp ?h1 p r = Some h'" by (simp add: Let_def)
    from "1.IH" [OF this] c1 show ?thesis by simp
  qed
qed

lemma backpropagate_tree:
  assumes "backpropagate h n r = Some h'"
  shows "unique_actions h \<Longrightarrow> unique_actions h'"
    and "children_allocated h \<Longrightarrow> children_allocated h'"
    and "extends h h'"
  using backpropagate_children [OF assms]
  by (simp_all add: unique_actions_def children_allocated_def extends_def)

lemma add_child_tree:
  assumes u: "unique_actions h" and al: "children_allocated h" and n: "n < fresh h"
    and a: "a \<notin> fst ` set (children (nodes h n))"
    and new: "new_TreeNode h p (Some n) = (c, h1)"
  shows "unique_actions (append_child h1 n a c)"
    and "children_allocated (append_child h1 n a c)"
    and "c < fresh (append_child h1 n a c)"
    and "extends h (append_child h1 n a c)"
proof -
  from new have c: "c = fresh h"
    and h1: "h1 = h\<lparr>nodes := (nodes h)(fresh h := TreeNode_init p (Some n)), fresh := Suc (fresh h)\<rparr>"
    by (auto simp: new_TreeNode_def)
  from n have nc: "n \<noteq> fresh h" by simp
  let ?h2 = "append_child h1 n a (fresh h)"
  have fr: "fresh ?h2 = Suc (fresh h)"
    by (simp add: append_child_def h1)
  have ch: "children (nodes ?h2 x) =
      (if x = n then children (nodes h n) @ [(a, fresh h)]
       else if x = fresh h then [] else children (nodes h x))" for x
    using nc by (simp add: append_child_def h1 TreeNode_init_def)
  have "fresh h < fresh ?h2" by (simp add: fr)
  then show "c < fresh (append_child h1 n a c)" by (simp add: c)
  have "unique_actions ?h2"
    using u a n nc by (auto simp: unique_actions_def fr ch less_Suc_eq)
  then show "unique_actions (append_child h1 n a c)" by (simp add: c)
  have "children_allocated ?h2"
    using al n nc by (auto simp: children_allocated_def fr ch less_Suc_eq)
  then show "children_allocated (append_child h1 n a c)" by (simp add: c)
  have "extends h ?h2"
    using n by (auto simp: extends_def fr ch)
  then show "extends h (append_child h1 n a c)" by (simp add: c)
qed

lemma choice_mem: "choice g xs = Inr (x, g1) \<Longrightarrow> x \<in> set xs"
  by (auto simp: choice_def split: if_splits)

lemma expand_tree:
  assumes "expand E h n st available g = Some (Inr (h', res))"
    and "unique_actions h" and "children_allocated h" and "n < fresh h"
  shows "unique_actions h' \<and> children_allocated h' \<and> extends h h'"
proof -
  from assms(1) obtain action g1 child h1 reward where
    ch: "choice g (unexplored h n available) = Inr (action, g1)"
    and new: "new_TreeNode h (param (nodes h n)) (Some n) = (child, h1)"
    and bp: "backpropagate (append_child h1 n action child) child reward = Some h'"
    by (auto simp: expand_def Let_def split: sum.splits prod.splits option.splits)
  from choice_mem [OF ch] have a: "action \<notin> fst ` set (children (nodes h n))"
    by (auto simp: unexplored_def)
  note t = add_child_tree [OF assms(2,3,4) a new]
  from backpropagate_tree [OF bp] t extends_trans show ?thesis by blast
qed

lemma ucb_loop_member:
  "snd (ucb_loop F h c lt actions cs (bs, b)) = Some ac \<Longrightarrow> ac \<in> set cs \<or> b = Some ac"
proof (induction cs arbitrary: bs b)
  case Nil
  then show ?case by simp
next
  case (Cons x xs)
  obtain a nd where x: "x = (a, nd)" by (cases x)
  from Cons.prems Cons.IH show ?case
    by (auto simp: x Let_def split: if_splits)
qed

lemma ucb_pick_member: "ucb_pick F h n actions = Some ac \<Longrightarrow> ac \<in> set (children (nodes h n))"
  using ucb_loop_member [of F h _ _ actions "children (nodes h n)" NegInf None ac]
  by (simp add: ucb_pick_def)

lemma select_tree:
  "select F E h n st g = Some y \<Longrightarrow> unique_actions h \<Longrightarrow> children_allocated h \<Longrightarrow> n < fresh h
     \<Longrightarrow> y = Inr (h', res) \<Longrightarrow> unique_actions h' \<and> children_allocated h' \<and> extends h h'"
proof (induction arbitrary: h' res rule: select.raw_induct [rotated 1, consumes 1])
  case (1 sel F E h n st g y)
  note body = "1.hyps"
  note u = "1.prems"(1) and al = "1.prems"(2) and n = "1.prems"(3) and y = "1.prems"(4)
  show ?case
  proof (cases "state_ended E st")
    case True
    with body y obtain "backpropagate h n (score E st) = Some h'"
      by (auto split: option.splits)
    from backpropagate_tree [OF this] u al show ?thesis by blast
  next
    case False
    note ne = this
    show ?thesis
    proof (cases "length (children (nodes h n)) < length (state_get_actions E st)")
      case True
      with ne body y have "expand E h n st (state_get_actions E st) g = Some (Inr (h', res))"
        by (simp add: Let_def)
      from expand_tree [OF this u al n] show ?thesis .
    next
      case False
      note nx = this
      show ?thesis
      proof (cases "ucb_pick F h n (state_get_actions E st)")
        case (Some ac)
        with ne nx body obtain st1 g1 where r: "sel F E h (snd ac) st1 g1 = Some y"
          by (auto simp: Let_def split: prod.splits)
        from ucb_pick_member [OF Some] al n have "snd ac < fresh h"
          by (auto simp: children_allocated_def)
        from "1.IH" [OF r u al this y] show ?thesis .
      next
        case None
        with ne nx body y obtain a g1 where
          ch: "choice g (state_get_actions E st) = Inr (a, g1)"
          by (auto simp: Let_def split: sum.splits)
        show ?thesis
        proof (cases "find (\<lambda>(x, _). x = a) (children (nodes h n))")
          case (Some xc)
          with None ch ne nx body obtain st1 g2 where r: "sel F E h (snd xc) st1 g2 = Some y"
            by (auto simp: Let_def split: prod.splits)
          from Some have "xc \<in> set (children (nodes h n))"
            by (auto simp: find_Some_iff intro: nth_mem)
          with al n have "snd xc < fresh h" by (auto simp: children_allocated_def)
          from "1.IH" [OF r u al this y] show ?thesis .
        next
          case fn: None
          obtain c h1 where new: "new_TreeNode h (param (nodes h n)) (Some n) = (c, h1)"
            by (cases "new_TreeNode h (param (nodes h n)) (Some n)")
          with fn None ch ne nx body obtain st1 g2 where
            r: "sel F E (append_child h1 n a c) c st1 g2 = Some y"
            by (auto simp: Let_def split: prod.splits)
          from fn have a: "a \<notin> fst ` set (children (nodes h n))"
            by (auto simp: find_None_iff)
          note t = add_child_tree [OF u al n a new]
          from "1.IH" [OF r t(1,2,3) y] t(4) extends_trans show ?thesis by blast
        qed
      qed
    qed
  qed
qed

lemma step_tree:
  assumes "step F E h n st g = Some (Inr (h', sres))"
    and "unique_actions h" and "children_allocated h" and "n < fresh h"
  shows "unique_actions h' \<and> children_allocated h' \<and> extends h h'"
proof -
  from assms(1) obtain res where "select F E h n st g = Some (Inr (h', res))"
    by (auto simp: step_def split: option.splits sum.splits prod.splits)
  from select_tree [OF this assms(2,3,4) refl] show ?thesis .
qed

lemma iterate_tree:
  "iterate F E k h t bs g = Some (Inr (h', g')) \<Longrightarrow> unique_actions h \<Longrightarrow> children_allocated h
     \<Longrightarrow> t < fresh h \<Longrightarrow> unique_actions h' \<and> children_allocated h' \<and> extends h h'"
proof (induction k arbitrary: h g)
  case 0
  then show ?case by (simp add: extends_refl)
next
  case (Suc k)
  obtain sample g1 where cp: "copy_undeterministic E bs g = (sample, g1)"
    by (cases "copy_undeterministic E bs g")
  with Suc.prems(1) obtain h1 st1 g2 where
    s: "step F E h t sample g1 = Some (Inr (h1, st1, g2))"
    and it: "iterate F E k h1 t bs g2 = Some (Inr (h', g'))"
    by (auto split: option.splits sum.splits prod.splits)
  from step_tree [OF s Suc.prems(2,3,4)]
  have u1: "unique_actions h1" and a1: "children_allocated h1" and e1: "extends h h1"
    by blast+
  from e1 Suc.prems(4) have t1: "t < fresh h1" by (simp add: extends_def)
  from Suc.IH [OF it u1 a1 t1] e1 extends_trans show ?case by blast
qed

lemma choose_card_tree:
  assumes "choose_card F E iterations p bs g = Some (Inr (x, h', g'))"
  shows "unique_actions h'"
proof (cases "length (state_get_actions E bs) = 1")
  case True
  with assms show ?thesis by (auto simp: choose_card_def unique_actions_def heap_empty_def)
next
  case False
  let ?h0 = "snd (new_TreeNode (heap_empty :: 'b heap) p None)"
  from False assms obtain g1 where
    it: "iterate F E (nat iterations) ?h0 0 bs g = Some (Inr (h', g1))"
    by (auto simp: choose_card_def Let_def new_TreeNode_def heap_empty_def
        split: option.splits sum.splits prod.splits)
  have "unique_actions ?h0" "children_allocated ?h0" "0 < fresh ?h0"
    by (simp_all add: unique_actions_def children_allocated_def new_TreeNode_def
        heap_empty_def TreeNode_init_def)
  from iterate_tree [OF it this] show ?thesis by blast
qed

lemma select_fallback_run:
  "\<exists>h'. select F0 E0 h_one_stale 0 Forced g0 = Some (Inr (h', 2, Done, g0)) \<and>
     children (nodes h' 0) = [(X, 1), (A, 2)] \<and> children (nodes h' 1) = [] \<and>
     children (nodes h' 2) = [] \<and> fresh h' = 3"
  by (simp add: select.simps E0_def ucb_pick_def F0_def choice_def g0_def h_one_stale_def leaf_def
      new_TreeNode_def append_child_def TreeNode_init_def score_def backpropagate.simps
      record_result_def)

text \<open>
  C7. No two entries of a children list share their action (\<open>unique_actions\<close>).
  Starting from a store in which this holds and in which every child reference points
  to a constructed TreeNode, \<^verbatim>\<open>expand\<close>, \<^verbatim>\<open>select\<close> (with its fallback), \<^verbatim>\<open>step\<close>,
  the loop of iterations and \<^verbatim>\<open>backpropagate\<close> hand back a store in which it holds
  again and in which every children list has only grown at its end; the store that
  \<^verbatim>\<open>choose_card\<close> builds from its fresh root has the property after any number of
  iterations. So a parent never gets a second child for an action.
\<close>

theorem sibling_actions_unique:
  "(unique_actions h \<and> children_allocated h \<and> n < fresh h \<longrightarrow>
      expand E h n st available g = Some (Inr (h', res)) \<longrightarrow>
      unique_actions h' \<and> children_allocated h' \<and> extends h h') \<and>
   (unique_actions h \<and> children_allocated h \<and> n < fresh h \<longrightarrow>
      select F E h n st g = Some (Inr (h', res)) \<longrightarrow>
      unique_actions h' \<and> children_allocated h' \<and> extends h h') \<and>
   (unique_actions h \<and> children_allocated h \<and> n < fresh h \<longrightarrow>
      step F E h n st g = Some (Inr (h', sres)) \<longrightarrow>
      unique_actions h' \<and> children_allocated h' \<and> extends h h') \<and>
   (unique_actions h \<and> children_allocated h \<and> n < fresh h \<longrightarrow>
      iterate F E k h n st g = Some (Inr (h', g')) \<longrightarrow>
      unique_actions h' \<and> children_allocated h' \<and> extends h h') \<and>
   (unique_actions h \<and> children_allocated h \<longrightarrow>
      backpropagate h n r = Some h' \<longrightarrow>
      unique_actions h' \<and> children_allocated h' \<and> extends h h') \<and>
   (choose_card F E iterations p st g = Some (Inr (x, h', g')) \<longrightarrow> unique_actions h')"
proof (intro conjI impI; (elim conjE)?)
  assume u: "unique_actions h" and al: "children_allocated h"
  {
    assume n: "n < fresh h"
    {
      assume "expand E h n st available g = Some (Inr (h', res))"
      from expand_tree [OF this u al n]
      show "unique_actions h'" "children_allocated h'" "extends h h'" by blast+
    }
    {
      assume "select F E h n st g = Some (Inr (h', res))"
      from select_tree [OF this u al n refl]
      show "unique_actions h'" "children_allocated h'" "extends h h'" by blast+
    }
    {
      assume "step F E h n st g = Some (Inr (h', sres))"
      from step_tree [OF this u al n]
      show "unique_actions h'" "children_allocated h'" "extends h h'" by blast+
    }
    {
      assume "iterate F E k h n st g = Some (Inr (h', g'))"
      from iterate_tree [OF this u al n]
      show "unique_actions h'" "children_allocated h'" "extends h h'" by blast+
    }
  }
  {
    assume "backpropagate h n r = Some h'"
    from backpropagate_tree [OF this] u al
    show "unique_actions h'" "children_allocated h'" "extends h h'" by blast+
  }
next
  assume "choose_card F E iterations p st g = Some (Inr (x, h', g'))"
  then show "unique_actions h'" by (rule choose_card_tree)
qed

theorem sibling_actions_unique_witness:
  "unique_actions h_one_stale \<and> children_allocated h_one_stale \<and> 0 < fresh h_one_stale \<and>
   (\<exists>h'. select F0 E0 h_one_stale 0 Forced g0 = Some (Inr (h', 2, Done, g0)) \<and>
      unique_actions h' \<and> extends h_one_stale h' \<and>
      children (nodes h' 0) = [(X, 1), (A, 2)]) \<and>
   (\<exists>h'. choose_card F0 E0 2 (Fin (1/2)) Play g0 = Some (Inr (A, h', g0)) \<and> unique_actions h' \<and>
      children (nodes h' 0) = [(A, 1), (B, 2)])"
proof -
  have u: "unique_actions h_one_stale"
    by (auto simp: unique_actions_def h_one_stale_def leaf_def less_Suc_eq numeral_2_eq_2)
  have al: "children_allocated h_one_stale"
    by (auto simp: children_allocated_def h_one_stale_def leaf_def less_Suc_eq numeral_2_eq_2)
  have n: "0 < fresh h_one_stale" by (simp add: h_one_stale_def)
  from select_fallback_run obtain h1 where
    run: "select F0 E0 h_one_stale 0 Forced g0 = Some (Inr (h1, 2, Done, g0))"
    and ch: "children (nodes h1 0) = [(X, 1), (A, 2)]" by blast
  from sibling_actions_unique
    [where h = h_one_stale and h' = h1 and E = E0 and n = 0 and st = Forced and g = g0
       and res = "(2, Done, g0)" and F = F0] u al n run
  have "unique_actions h1 \<and> extends h_one_stale h1" by blast
  with run ch have s: "\<exists>h'. select F0 E0 h_one_stale 0 Forced g0 = Some (Inr (h', 2, Done, g0)) \<and>
      unique_actions h' \<and> extends h_one_stale h' \<and>
      children (nodes h' 0) = [(X, 1), (A, 2)]" by blast
  from choose_card_run obtain h2 where
    cc: "choose_card F0 E0 2 (Fin (1/2)) Play g0 = Some (Inr (A, h2, g0))"
    and c2: "children (nodes h2 0) = [(A, 1), (B, 2)]" by blast
  from sibling_actions_unique
    [where h' = h2 and E = E0 and iterations = 2 and p = "Fin (1/2)" and F = F0 and st = Play and g = g0
       and x = A and g' = g0] cc
  have "unique_actions h2" by blast
  with cc c2 u al n s show ?thesis by blast
qed

end
